theory Spec2Isabelle
  imports Main "HOL-Library.Word"
begin

section \<open>Strings of the source language\<close>

text \<open>
  The program is TypeScript: a string is a sequence of 16-bit code units, and the
  regular expressions of the source (none has the \<open>u\<close> flag) work on code units.
\<close>

type_synonym uchar = "16 word"
type_synonym jstring = "uchar list"

definition js :: "string \<Rightarrow> jstring" where
  "js s = map (\<lambda>c. of_nat (of_char c)) s"

abbreviation LF :: uchar where "LF \<equiv> 0x0A"
abbreviation HASH :: uchar where "HASH \<equiv> 0x23"
abbreviation STAR :: uchar where "STAR \<equiv> 0x2A"
abbreviation DOT :: uchar where "DOT \<equiv> 0x2E"
abbreviation COLON :: uchar where "COLON \<equiv> 0x3A"

text \<open>
  The class \<open>\s\<close> of a regular expression and the characters \<open>String.prototype.trim\<close> strips
  are the same set: the WhiteSpace and LineTerminator code points of ECMAScript.
\<close>

definition is_space :: "uchar \<Rightarrow> bool" where
  "is_space c =
     (c = 0x09 \<or> c = 0x0A \<or> c = 0x0B \<or> c = 0x0C \<or> c = 0x0D \<or> c = 0x20 \<or> c = 0xA0 \<or>
      c = 0x1680 \<or> (0x2000 \<le> c \<and> c \<le> 0x200A) \<or> c = 0x2028 \<or> c = 0x2029 \<or>
      c = 0x202F \<or> c = 0x205F \<or> c = 0x3000 \<or> c = 0xFEFF)"

text \<open>\<open>\d\<close>\<close>

definition is_digit :: "uchar \<Rightarrow> bool" where
  "is_digit c = (0x30 \<le> c \<and> c \<le> 0x39)"

text \<open>\<open>[A-Z]\<close>\<close>

definition is_upper :: "uchar \<Rightarrow> bool" where
  "is_upper c = (0x41 \<le> c \<and> c \<le> 0x5A)"

text \<open>\<open>[A-Za-z0-9 &/'\u2019\-]\<close>\<close>

definition title_char :: "uchar \<Rightarrow> bool" where
  "title_char c =
     ((0x41 \<le> c \<and> c \<le> 0x5A) \<or> (0x61 \<le> c \<and> c \<le> 0x7A) \<or> (0x30 \<le> c \<and> c \<le> 0x39) \<or>
      c = 0x20 \<or> c = 0x26 \<or> c = 0x2F \<or> c = 0x27 \<or> c = 0x2019 \<or> c = 0x2D)"

text \<open>\<open>[^*\n]\<close>\<close>

definition bold_char :: "uchar \<Rightarrow> bool" where
  "bold_char c = (c \<noteq> STAR \<and> c \<noteq> LF)"

definition is_hash :: "uchar \<Rightarrow> bool" where
  "is_hash c = (c = HASH)"

text \<open>\<open>String.prototype.trim\<close>\<close>

definition trim :: "jstring \<Rightarrow> jstring" where
  "trim s = rev (dropWhile is_space (rev (dropWhile is_space s)))"

section \<open>Backtracking matchers\<close>

text \<open>
  A pattern is matched against the rest of the input and hands what is left to its
  continuation; a continuation that fails makes the pattern try its next alternative, as
  the backtracking matcher of the language does. The first success is the match.
\<close>

type_synonym 'a cont = "jstring \<Rightarrow> 'a option"

text \<open>One given code unit.\<close>

definition lit :: "uchar \<Rightarrow> 'a cont \<Rightarrow> 'a cont" where
  "lit x k s = (case s of [] \<Rightarrow> None | c # cs \<Rightarrow> if c = x then k cs else None)"

text \<open>One code unit of a class.\<close>

definition cls :: "(uchar \<Rightarrow> bool) \<Rightarrow> 'a cont \<Rightarrow> 'a cont" where
  "cls p k s = (case s of [] \<Rightarrow> None | c # cs \<Rightarrow> if p c then k cs else None)"

text \<open>
  A greedy quantifier over a class: \<open>rep_try lo n k s\<close> tries the continuation after
  \<open>n\<close> code units, then after \<open>n - 1\<close>, down to \<open>lo\<close>.
\<close>

fun rep_try :: "nat \<Rightarrow> nat \<Rightarrow> 'a cont \<Rightarrow> 'a cont" where
  "rep_try lo 0 k s = (if 0 < lo then None else k s)"
| "rep_try lo (Suc n) k s =
     (if Suc n < lo then None
      else case k (drop (Suc n) s) of
        Some r \<Rightarrow> Some r
      | None \<Rightarrow> rep_try lo n k s)"

definition rep :: "(uchar \<Rightarrow> bool) \<Rightarrow> nat \<Rightarrow> nat option \<Rightarrow> 'a cont \<Rightarrow> 'a cont" where
  "rep p lo hi k s =
     (let n = length (takeWhile p s)
      in rep_try lo (case hi of None \<Rightarrow> n | Some h \<Rightarrow> min h n) k s)"

text \<open>Alternatives, the left one first.\<close>

definition alt :: "('a cont \<Rightarrow> 'a cont) \<Rightarrow> ('a cont \<Rightarrow> 'a cont) \<Rightarrow> 'a cont \<Rightarrow> 'a cont" where
  "alt r1 r2 k s = (case r1 k s of Some r \<Rightarrow> Some r | None \<Rightarrow> r2 k s)"

text \<open>
  \<open>^\<close> without the \<open>m\<close> flag: the start of the input only. The flag says whether the
  matcher stands at index 0.
\<close>

definition bol :: "bool \<Rightarrow> 'a cont \<Rightarrow> 'a cont" where
  "bol at0 k s = (if at0 then k s else None)"

text \<open>A capture group: the text between where the group started and where it ended.\<close>

definition grp :: "('a cont \<Rightarrow> 'a cont) \<Rightarrow> (jstring \<Rightarrow> 'a cont) \<Rightarrow> 'a cont" where
  "grp r k s = r (\<lambda>s'. k (take (length s - length s') s) s') s"

text \<open>A lookahead \<open>(?=r)\<close>: consumes nothing.\<close>

definition look :: "(unit cont \<Rightarrow> unit cont) \<Rightarrow> 'a cont \<Rightarrow> 'a cont" where
  "look r k s = (case r (\<lambda>_. Some ()) s of None \<Rightarrow> None | Some _ \<Rightarrow> k s)"

text \<open>
  \<open>String.prototype.replace\<close> with a global pattern: the pattern is tried at every
  index from left to right; a match is replaced and the search goes on where it ended
  (one code unit further when the match was empty). A rule gives the replacement text
  and the rest of the input after the match.
\<close>

type_synonym rule = "bool \<Rightarrow> jstring \<Rightarrow> (jstring \<times> jstring) option"

function replace_all :: "rule \<Rightarrow> bool \<Rightarrow> jstring \<Rightarrow> jstring" where
  "replace_all m at0 s =
     (case m at0 s of
        Some (out, rest) \<Rightarrow>
          if length rest < length s then out @ replace_all m False rest
          else (case s of [] \<Rightarrow> out | c # cs \<Rightarrow> out @ c # replace_all m False cs)
      | None \<Rightarrow> (case s of [] \<Rightarrow> [] | c # cs \<Rightarrow> c # replace_all m False cs))"
  by pat_completeness auto
termination
  by (relation "measure (\<lambda>(m, at0, s). length s)") auto

declare replace_all.simps [simp del]

text \<open>\<open>String.prototype.replace\<close> with a pattern that is not global: the first match only.\<close>

fun replace_first :: "rule \<Rightarrow> bool \<Rightarrow> jstring \<Rightarrow> jstring" where
  "replace_first m at0 [] = (case m at0 [] of Some (out, rest) \<Rightarrow> out @ rest | None \<Rightarrow> [])"
| "replace_first m at0 (c # cs) =
     (case m at0 (c # cs) of
        Some (out, rest) \<Rightarrow> out @ rest
      | None \<Rightarrow> c # replace_first m False cs)"

text \<open>
  \<open>String.prototype.split\<close>: the separator is tried at every index \<open>q\<close> from the start
  \<open>p\<close> of the current piece (\<open>acc\<close> is the text between them). A match that ends at \<open>p\<close>
  is skipped; any other match closes the piece.
\<close>

fun split_loop :: "jstring cont \<Rightarrow> jstring \<Rightarrow> jstring \<Rightarrow> jstring list" where
  "split_loop sep acc [] = [acc]"
| "split_loop sep acc (c # cs) =
     (case sep (c # cs) of
        None \<Rightarrow> split_loop sep (acc @ [c]) cs
      | Some rest \<Rightarrow>
          if length rest < Suc (length cs) then acc # split_loop sep [] rest
          else if acc = [] then split_loop sep [c] cs
          else acc # split_loop sep [c] cs)"

definition split :: "jstring cont \<Rightarrow> jstring \<Rightarrow> jstring list" where
  "split sep s =
     (if s = [] then (case sep [] of None \<Rightarrow> [[]] | Some _ \<Rightarrow> [])
      else split_loop sep [] s)"

text \<open>\<open>Array.prototype.join("\n")\<close>\<close>

fun join_lf :: "jstring list \<Rightarrow> jstring" where
  "join_lf [] = []"
| "join_lf [x] = x"
| "join_lf (x # y # ys) = x @ LF # join_lf (y # ys)"

section \<open>The normalizer\<close>

text \<open>\<open>/(^|\n)\*\*([^*\n]{3,60})\*\*:\s*/g\<close>, replaced by \<open>"$1### $2\n\n"\<close>\<close>

definition bold_re :: "bool \<Rightarrow> (jstring \<times> jstring \<times> jstring) cont" where
  "bold_re at0 =
     grp (alt (bol at0) (lit LF)) (\<lambda>g1.
       (lit STAR \<circ> lit STAR) (grp (rep bold_char 3 (Some 60)) (\<lambda>g2.
         (lit STAR \<circ> lit STAR \<circ> lit COLON \<circ> rep is_space 0 None) (\<lambda>rest.
           Some (g1, g2, rest)))))"

definition bold_rule :: rule where
  "bold_rule at0 s =
     (case bold_re at0 s of
        None \<Rightarrow> None
      | Some (g1, g2, rest) \<Rightarrow> Some (g1 @ js ''### '' @ g2 @ [LF, LF], rest))"

text \<open>\<open>/(^|\n)([A-Z][A-Za-z0-9 &/'\u2019\-]{4,80}):\s*\n/g\<close>, replaced by \<open>"$1### $2\n"\<close>\<close>

definition title_re :: "bool \<Rightarrow> (jstring \<times> jstring \<times> jstring) cont" where
  "title_re at0 =
     grp (alt (bol at0) (lit LF)) (\<lambda>g1.
       grp (cls is_upper \<circ> rep title_char 4 (Some 80)) (\<lambda>g2.
         (lit COLON \<circ> rep is_space 0 None \<circ> lit LF) (\<lambda>rest.
           Some (g1, g2, rest))))"

definition title_rule :: rule where
  "title_rule at0 s =
     (case title_re at0 s of
        None \<Rightarrow> None
      | Some (g1, g2, rest) \<Rightarrow> Some (g1 @ js ''### '' @ g2 @ [LF], rest))"

definition prettifyMarkdown :: "jstring \<Rightarrow> jstring" where
  "prettifyMarkdown md =
     (if md = [] then md
      else let s = trim md;
               s = replace_all bold_rule True s;
               s = replace_all title_rule True s
           in s)"

section \<open>The segmenter\<close>

record DigestCard =
  title :: jstring
  body :: jstring
  subcards :: "jstring list"

text \<open>
  Reading a property of \<open>undefined\<close> is the one way the segmenter could throw: an array
  read out of range gives \<open>undefined\<close>.
\<close>

datatype error = TypeError

text \<open>\<open>##?\s+\<close>\<close>

definition header_mark :: "'a cont \<Rightarrow> 'a cont" where
  "header_mark = lit HASH \<circ> rep is_hash 0 (Some 1) \<circ> rep is_space 1 None"

text \<open>\<open>\d+\.\s+\<close>\<close>

definition number_mark :: "'a cont \<Rightarrow> 'a cont" where
  "number_mark = rep is_digit 1 None \<circ> lit DOT \<circ> rep is_space 1 None"

text \<open>\<open>/\n(?=##?\s+)/g\<close>\<close>

definition story_sep :: "jstring cont" where
  "story_sep = (lit LF \<circ> look header_mark) Some"

text \<open>\<open>/\n(?=\d+\.\s+)/g\<close>\<close>

definition section_sep :: "jstring cont" where
  "section_sep = (lit LF \<circ> look number_mark) Some"

text \<open>\<open>"\n"\<close> as a separator\<close>

definition lf_sep :: "jstring cont" where
  "lf_sep = lit LF Some"

text \<open>\<open>/^##?\s+/\<close>, replaced by \<open>""\<close>\<close>

definition strip_rule :: rule where
  "strip_rule at0 s = (bol at0 \<circ> header_mark) (\<lambda>rest. Some ([], rest)) s"

text \<open>The body of the loop over the story blocks: the card of one block.\<close>

definition make_card :: "jstring \<Rightarrow> error + DigestCard" where
  "make_card block =
     (let lines = split lf_sep block;
          firstLine = (case lines of [] \<Rightarrow> [] | l # _ \<Rightarrow> trim l);
          title' = trim (replace_first strip_rule True firstLine);
          rest = trim (join_lf (drop 1 lines));
          parts = (if rest \<noteq> [] then split section_sep rest else [])
      in case (if parts \<noteq> []
               then (case parts of [] \<Rightarrow> Inl TypeError | p # _ \<Rightarrow> Inr (trim p))
               else Inr rest) of
           Inl e \<Rightarrow> Inl e
         | Inr body' \<Rightarrow>
             Inr \<lparr>title = (if title' \<noteq> [] then title' else js ''Top story''),
                  body = body',
                  subcards =
                    (if 1 < length parts
                     then filter (\<lambda>p. p \<noteq> []) (map trim (drop 1 parts))
                     else [])\<rparr>)"

fun digest_loop :: "jstring list \<Rightarrow> DigestCard list \<Rightarrow> error + DigestCard list" where
  "digest_loop [] result = Inr result"
| "digest_loop (block # blocks) result =
     (case make_card block of
        Inl e \<Rightarrow> Inl e
      | Inr c \<Rightarrow> digest_loop blocks (result @ [c]))"

definition splitIntoDigest :: "jstring \<Rightarrow> error + DigestCard list" where
  "splitIntoDigest md =
     (let text = trim md
      in if text = [] then Inr []
         else let blocks = filter (\<lambda>b. b \<noteq> []) (map trim (split story_sep text));
                  storyBlocks = (if 1 < length blocks then blocks else [text])
              in digest_loop storyBlocks [])"

text \<open>The component applies the segmenter to the normalized text.\<close>

definition digest :: "jstring \<Rightarrow> error + DigestCard list" where
  "digest summary = splitIntoDigest (prettifyMarkdown summary)"

section \<open>Notions the properties are stated with\<close>

text \<open>The number of code units of a string that are not whitespace.\<close>

definition nws :: "jstring \<Rightarrow> nat" where
  "nws s = length (filter (\<lambda>c. \<not> is_space c) s)"

definition card_nws :: "DigestCard \<Rightarrow> nat" where
  "card_nws c = nws (title c) + nws (body c) + sum_list (map nws (subcards c))"

definition cards_nws :: "DigestCard list \<Rightarrow> nat" where
  "cards_nws cards = sum_list (map card_nws cards)"

text \<open>The number of code units of a string that are neither whitespace nor a hash.\<close>

definition content :: "jstring \<Rightarrow> nat" where
  "content s = length (filter (\<lambda>c. \<not> is_space c \<and> c \<noteq> HASH) s)"

definition card_content :: "DigestCard \<Rightarrow> nat" where
  "card_content c =
     content (title c) + content (body c) + sum_list (map content (subcards c))"

definition cards_content :: "DigestCard list \<Rightarrow> nat" where
  "cards_content cards = sum_list (map card_content cards)"

text \<open>The lines of a text, as \<open>split("\n")\<close> gives them.\<close>

definition lines_of :: "jstring \<Rightarrow> jstring list" where
  "lines_of t = split lf_sep t"

text \<open>A string without the whitespace at its end (\<open>String.prototype.trimEnd\<close>).\<close>

definition trim_end :: "jstring \<Rightarrow> jstring" where
  "trim_end l = rev (dropWhile is_space (rev l))"

text \<open>A canonical header line is a line that starts with the marker the normalizer writes.\<close>

definition is_header :: "jstring \<Rightarrow> bool" where
  "is_header l = (take 4 l = js ''### '')"

text \<open>
  The strings \<open>xs\<close> occur in the text \<open>t\<close> one after the other, from left to right and
  without overlap.
\<close>

fun in_order :: "jstring list \<Rightarrow> jstring \<Rightarrow> bool" where
  "in_order [] t = True"
| "in_order (x # xs) t =
     list_ex (\<lambda>i. take (length x) (drop i t) = x \<and> in_order xs (drop (i + length x) t))
       [0..<Suc (length t)]"

text \<open>
  A string starts with a numeric list marker, \<open>\d+\.\s+\<close>, when that pattern matches at
  its start.
\<close>

definition starts_with_marker :: "jstring \<Rightarrow> bool" where
  "starts_with_marker p = (number_mark (\<lambda>_. Some ()) p \<noteq> None)"

text \<open>
  The places of a text where a numbered item starts on a new line: the positions of the
  line feeds that have a numeric list marker right after them, from left to right.
\<close>

definition marker_starts :: "jstring \<Rightarrow> nat list" where
  "marker_starts t =
     filter (\<lambda>i. t ! i = LF \<and> starts_with_marker (drop (Suc i) t)) [0..<length t]"

text \<open>
  The fragments of a text \<open>t\<close> of length \<open>n\<close> at the positions \<open>ms\<close>, in the order of the
  positions: the fragment at a position \<open>i\<close> is the text after position \<open>i\<close> and before
  the next position \<open>j\<close> of the list, or before the end of the text at the last one.
\<close>

definition raw_fragments :: "nat list \<Rightarrow> nat \<Rightarrow> jstring \<Rightarrow> jstring list" where
  "raw_fragments ms n t =
     map (\<lambda>(i, j). take (j - Suc i) (drop (Suc i) t)) (zip ms (tl ms @ [n]))"

text \<open>
  The numbered items of a text, in the order of their markers in the text: each one
  reaches from its marker to the line feed before the next marker that starts a line, or
  to the end of the text, and is trimmed.
\<close>

definition marker_fragments :: "jstring \<Rightarrow> jstring list" where
  "marker_fragments t = map trim (raw_fragments (marker_starts t) (length t) t)"

text \<open>
  The story blocks the segmenter makes its cards from, one card for each block
  (\<open>storyBlocks\<close> in the source). There is none for a text that is blank: the segmenter
  returns before it splits the text.
\<close>

definition story_blocks :: "jstring \<Rightarrow> jstring list" where
  "story_blocks md =
     (let text = trim md
      in if text = [] then []
         else let blocks = filter (\<lambda>b. b \<noteq> []) (map trim (split story_sep text))
              in if 1 < length blocks then blocks else [text])"

text \<open>The text of a block after its first line, trimmed.\<close>

definition block_rest :: "jstring \<Rightarrow> jstring" where
  "block_rest block = trim (drop 1 (dropWhile (\<lambda>c. c \<noteq> LF) block))"

text \<open>
  A string starts with one or more digits and a period, and the period is the end of the
  string or is followed by whitespace.
\<close>

definition starts_with_number :: "jstring \<Rightarrow> bool" where
  "starts_with_number p =
     (takeWhile is_digit p \<noteq> [] \<and>
      (case dropWhile is_digit p of
         [] \<Rightarrow> False
       | c # r \<Rightarrow> c = DOT \<and> (case r of [] \<Rightarrow> True | d # _ \<Rightarrow> is_space d)))"

section \<open>Notions the proofs use\<close>

text \<open>The code unit \<open>u\<close> stands somewhere in the string right before the code unit \<open>v\<close>.\<close>

fun adj :: "uchar \<Rightarrow> uchar \<Rightarrow> jstring \<Rightarrow> bool" where
  "adj u v (x # y # r) = ((x = u \<and> y = v) \<or> adj u v (y # r))"
| "adj u v r = False"

text \<open>
  What the two rules of the normalizer have in common: a match starts at the start of the
  text or at a line feed, which the replacement keeps; then comes a part without line
  feed that does not start with a hash, then a part without hash; and the replacement
  ends in a line feed.
\<close>

definition line_rule :: "rule \<Rightarrow> bool" where
  "line_rule m =
     (\<forall>at0 s out rest. m at0 s = Some (out, rest) \<longrightarrow>
        (\<exists>g mid w out'. s = g @ mid @ w @ rest \<and> out = g @ out' \<and>
           (g = [] \<and> at0 \<or> g = [LF]) \<and> mid \<noteq> [] \<and> LF \<notin> set mid \<and> hd mid \<noteq> HASH \<and>
           HASH \<notin> set w \<and> out' \<noteq> [] \<and> last out' = LF))"





section \<open>Trimming\<close>

lemma trim_Nil_iff: "trim s = [] \<longleftrightarrow> (\<forall>c\<in>set s. is_space c)"
proof -
  have "trim s = [] \<longleftrightarrow> (\<forall>c\<in>set (dropWhile is_space s). is_space c)"
    by (simp add: trim_def dropWhile_eq_Nil_conv)
  also have "\<dots> \<longleftrightarrow> dropWhile is_space s = []"
    using hd_dropWhile [of is_space s]
    by (cases "dropWhile is_space s") (auto dest: set_dropWhileD)
  also have "\<dots> \<longleftrightarrow> (\<forall>c\<in>set s. is_space c)"
    by (simp add: dropWhile_eq_Nil_conv)
  finally show ?thesis .
qed

lemma trim_decomp:
  "\<exists>a b. s = a @ trim s @ b \<and> (\<forall>c\<in>set a. is_space c) \<and> (\<forall>c\<in>set b. is_space c)"
proof -
  define d where "d = dropWhile is_space s"
  have s: "s = takeWhile is_space s @ d"
    by (simp add: d_def)
  have "d = rev (dropWhile is_space (rev d)) @ rev (takeWhile is_space (rev d))"
    by (metis rev_append rev_rev_ident takeWhile_dropWhile_id)
  then have d: "d = trim s @ rev (takeWhile is_space (rev d))"
    by (simp add: trim_def d_def)
  have "s = takeWhile is_space s @ trim s @ rev (takeWhile is_space (rev d))"
    using s d by simp
  moreover have "\<forall>c\<in>set (takeWhile is_space s). is_space c"
    by (auto dest: set_takeWhileD)
  moreover have "\<forall>c\<in>set (rev (takeWhile is_space (rev d))). is_space c"
    by (auto dest: set_takeWhileD)
  ultimately show ?thesis by blast
qed

lemma trim_last: "trim s \<noteq> [] \<Longrightarrow> \<not> is_space (last (trim s))"
  using hd_dropWhile [of is_space "rev (dropWhile is_space s)"]
  by (simp add: trim_def last_rev)

lemma trim_hd:
  assumes "trim s \<noteq> []"
  shows "\<not> is_space (hd (trim s))"
proof -
  define d where "d = dropWhile is_space s"
  have "d = rev (dropWhile is_space (rev d)) @ rev (takeWhile is_space (rev d))"
    by (metis rev_append rev_rev_ident takeWhile_dropWhile_id)
  then have d: "d = trim s @ rev (takeWhile is_space (rev d))"
    by (simp add: trim_def d_def)
  then have "d \<noteq> []" using assms by auto
  then have "\<not> is_space (hd d)"
    unfolding d_def by (rule hd_dropWhile)
  moreover have "hd d = hd (trim s)"
    using d assms by (metis hd_append2)
  ultimately show ?thesis by simp
qed

lemma trim_id:
  assumes "s \<noteq> []" "\<not> is_space (hd s)" "\<not> is_space (last s)"
  shows "trim s = s"
proof -
  have 1: "dropWhile is_space s = s"
    using assms by (cases s) auto
  have "rev s \<noteq> []" "\<not> is_space (hd (rev s))"
    using assms by (auto simp: hd_rev)
  then have "dropWhile is_space (rev s) = rev s"
    by (cases "rev s") auto
  then show ?thesis by (simp add: trim_def 1)
qed

lemma trim_Nil [simp]: "trim [] = []"
  by (simp add: trim_def)

section \<open>Counting the code units that are not whitespace\<close>

lemma nws_Nil [simp]: "nws [] = 0"
  by (simp add: nws_def)

lemma nws_append [simp]: "nws (a @ b) = nws a + nws b"
  by (simp add: nws_def)

lemma nws_Cons: "nws (c # s) = (if is_space c then 0 else 1) + nws s"
  by (simp add: nws_def)

lemma nws_spaces: "\<forall>c\<in>set a. is_space c \<Longrightarrow> nws a = 0"
  by (simp add: nws_def)

lemma nws_le_length: "nws s \<le> length s"
  by (simp add: nws_def)

lemma nws_trim [simp]: "nws (trim s) = nws s"
proof -
  obtain a b where "s = a @ trim s @ b" "\<forall>c\<in>set a. is_space c" "\<forall>c\<in>set b. is_space c"
    using trim_decomp by blast
  then have "nws s = nws a + nws (trim s) + nws b" "nws a = 0" "nws b = 0"
    by (metis nws_append add.assoc, simp_all add: nws_spaces)
  then show ?thesis by simp
qed

lemma is_space_LF [simp]: "is_space LF"
  by (simp add: is_space_def)

section \<open>Neither function throws\<close>

lemma make_card_total: "\<exists>c. make_card block = Inr c"
  by (simp add: make_card_def Let_def split: list.split)

lemma digest_loop_Inr:
  "\<exists>cs. digest_loop blocks result = Inr (result @ cs) \<and>
        list_all2 (\<lambda>b c. make_card b = Inr c) blocks cs"
proof (induction blocks arbitrary: result)
  case Nil
  show ?case by simp
next
  case (Cons b bs)
  obtain c where c: "make_card b = Inr c"
    using make_card_total by blast
  obtain cs where "digest_loop bs (result @ [c]) = Inr ((result @ [c]) @ cs)"
    "list_all2 (\<lambda>b c. make_card b = Inr c) bs cs"
    using Cons.IH by blast
  then have "digest_loop (b # bs) result = Inr (result @ c # cs) \<and>
      list_all2 (\<lambda>b c. make_card b = Inr c) (b # bs) (c # cs)"
    using c by simp
  then show ?case by blast
qed

text \<open>The story blocks of a text that is not empty after trimming.\<close>

lemma splitIntoDigest_blocks:
  assumes "trim md \<noteq> []"
  shows "\<exists>blocks cards. splitIntoDigest md = Inr cards \<and>
           list_all2 (\<lambda>b c. make_card b = Inr c) blocks cards \<and>
           blocks \<noteq> [] \<and>
           (blocks = [trim md] \<or>
            blocks = filter (\<lambda>b. b \<noteq> []) (map trim (split story_sep (trim md))))"
proof -
  define bs where "bs = filter (\<lambda>b. b \<noteq> []) (map trim (split story_sep (trim md)))"
  define blocks where "blocks = (if 1 < length bs then bs else [trim md])"
  obtain cs where cs: "digest_loop blocks [] = Inr ([] @ cs)"
    "list_all2 (\<lambda>b c. make_card b = Inr c) blocks cs"
    using digest_loop_Inr by blast
  have "splitIntoDigest md = digest_loop blocks []"
    unfolding splitIntoDigest_def blocks_def bs_def Let_def
    by (simp only: assms if_False)
  then have "splitIntoDigest md = Inr cs"
    using cs(1) by simp
  moreover have "blocks \<noteq> []"
    by (cases bs) (auto simp: blocks_def)
  moreover have "blocks = [trim md] \<or> blocks = bs"
    by (simp add: blocks_def)
  ultimately show ?thesis using cs(2) unfolding bs_def by blast
qed

lemma splitIntoDigest_empty: "trim md = [] \<Longrightarrow> splitIntoDigest md = Inr []"
  by (simp add: splitIntoDigest_def)

lemma splitIntoDigest_total: "\<exists>cards. splitIntoDigest md = Inr cards"
  using splitIntoDigest_blocks [of md] splitIntoDigest_empty [of md] by blast

text \<open>
  C1: for every string, the normalizer followed by the segmenter returns a list of cards;
  the branch of the model in which the segmenter throws is never taken. Every function of
  the model is total, so the run also ends.
\<close>

theorem digest_returns_cards: "\<exists>cards. digest s = Inr cards"
  by (simp add: digest_def splitIntoDigest_total)

theorem digest_returns_cards_witness:
  "(\<exists>cards. digest [] = Inr cards) \<and> (\<exists>cards. digest (js ''  '') = Inr cards) \<and>
   (\<exists>cards. digest (js ''x'') = Inr cards)"
  by (intro conjI digest_returns_cards)

text \<open>
  C7: the segmenter returns the empty list of cards exactly when its input is empty after
  trimming; on such an input it returns the empty list and no error, and on every other
  input it returns at least one card.
\<close>

theorem splitIntoDigest_empty_iff:
  "(trim md = [] \<longrightarrow> splitIntoDigest md = Inr []) \<and>
   (trim md \<noteq> [] \<longrightarrow> (\<exists>c cs. splitIntoDigest md = Inr (c # cs)))"
proof (intro conjI impI)
  assume "trim md = []"
  then show "splitIntoDigest md = Inr []" by (rule splitIntoDigest_empty)
next
  assume "trim md \<noteq> []"
  then obtain blocks cards where *: "splitIntoDigest md = Inr cards"
    "list_all2 (\<lambda>b c. make_card b = Inr c) blocks cards" "blocks \<noteq> []"
    using splitIntoDigest_blocks by blast
  then have "cards \<noteq> []" by auto
  then show "\<exists>c cs. splitIntoDigest md = Inr (c # cs)"
    using *(1) by (cases cards) auto
qed

theorem splitIntoDigest_empty_iff_witness:
  "trim (js '' '') = [] \<and> splitIntoDigest (js '' '') = Inr [] \<and>
   trim (js ''a'') \<noteq> [] \<and> (\<exists>c cs. splitIntoDigest (js ''a'') = Inr (c # cs))"
proof -
  have 1: "trim (js '' '') = []" by code_simp
  have 2: "trim (js ''a'') \<noteq> []" by code_simp
  show ?thesis
    using 1 2 splitIntoDigest_empty_iff [of "js '' ''"] splitIntoDigest_empty_iff [of "js ''a''"]
    by blast
qed

section \<open>What a successful match says about the input\<close>

lemma lit_Some: "lit x k s = Some r \<longleftrightarrow> (\<exists>cs. s = x # cs \<and> k cs = Some r)"
  by (cases s) (auto simp: lit_def)

lemma cls_Some: "cls p k s = Some r \<longleftrightarrow> (\<exists>c cs. s = c # cs \<and> p c \<and> k cs = Some r)"
  by (cases s) (auto simp: cls_def)

lemma bol_Some: "bol b k s = Some r \<longleftrightarrow> (b \<and> k s = Some r)"
  by (simp add: bol_def)

lemma alt_Some: "alt r1 r2 k s = Some r \<Longrightarrow> r1 k s = Some r \<or> r2 k s = Some r"
  by (auto simp: alt_def split: option.splits)

lemma look_Some: "look r k s = Some x \<longleftrightarrow> (r (\<lambda>_. Some ()) s \<noteq> None \<and> k s = Some x)"
  by (auto simp: look_def split: option.splits)

lemma rep_try_Some:
  "rep_try lo n k s = Some r \<Longrightarrow> \<exists>j. lo \<le> j \<and> j \<le> n \<and> k (drop j s) = Some r"
proof (induction n)
  case 0
  then show ?case by (auto split: if_splits option.splits)
next
  case (Suc n)
  show ?case
  proof (cases "k (drop (Suc n) s)")
    case None
    then have "rep_try lo n k s = Some r" "Suc n \<ge> lo"
      using Suc.prems by (auto split: if_splits)
    then obtain j where "lo \<le> j" "j \<le> n" "k (drop j s) = Some r"
      using Suc.IH by blast
    then show ?thesis by (metis le_Suc_eq)
  next
    case (Some a)
    then have "a = r" "lo \<le> Suc n"
      using Suc.prems by (auto split: if_splits)
    then show ?thesis using Some by blast
  qed
qed

lemma take_takeWhile_all:
  "j \<le> length (takeWhile p s) \<Longrightarrow> \<forall>c\<in>set (take j s). p c"
proof (induction s arbitrary: j)
  case Nil
  then show ?case by simp
next
  case (Cons a s)
  then show ?case by (cases j) (auto split: if_splits)
qed

lemma rep_Some:
  assumes "rep p lo hi k s = Some r"
  shows "\<exists>x y. s = x @ y \<and> (\<forall>c\<in>set x. p c) \<and> lo \<le> length x \<and>
           (\<forall>h. hi = Some h \<longrightarrow> length x \<le> h) \<and> k y = Some r"
proof -
  define n where "n = length (takeWhile p s)"
  define m where "m = (case hi of None \<Rightarrow> n | Some h \<Rightarrow> min h n)"
  have "rep_try lo m k s = Some r"
    using assms unfolding rep_def Let_def n_def m_def .
  from rep_try_Some [OF this]
  obtain j where j: "lo \<le> j" "j \<le> m" "k (drop j s) = Some r"
    by auto
  have jn: "j \<le> n" and jh: "\<forall>h. hi = Some h \<longrightarrow> j \<le> h"
    using j(2) by (auto simp: m_def split: option.splits)
  have "n \<le> length s"
    by (simp add: n_def length_takeWhile_le)
  then have len: "length (take j s) = j"
    using jn by simp
  have "\<forall>c\<in>set (take j s). p c"
    using jn unfolding n_def by (rule take_takeWhile_all)
  moreover have "s = take j s @ drop j s"
    by simp
  ultimately have "s = take j s @ drop j s \<and> (\<forall>c\<in>set (take j s). p c) \<and>
      lo \<le> length (take j s) \<and> (\<forall>h. hi = Some h \<longrightarrow> length (take j s) \<le> h) \<and>
      k (drop j s) = Some r"
    using j(1,3) jh len by simp
  then show ?thesis
    by (intro exI [of _ "take j s"] exI [of _ "drop j s"])
qed

lemma lf_sep_Some: "lf_sep s = Some r \<longleftrightarrow> s = LF # r"
  by (auto simp: lf_sep_def lit_Some)

lemma story_sep_Some:
  "story_sep s = Some r \<longleftrightarrow> (s = LF # r \<and> header_mark (\<lambda>_. Some ()) r \<noteq> None)"
  by (auto simp: story_sep_def lit_Some look_Some)

lemma section_sep_Some: "section_sep s = Some r \<longleftrightarrow> (s = LF # r \<and> starts_with_marker r)"
  by (auto simp: section_sep_def lit_Some look_Some starts_with_marker_def)

lemma number_mark_Some:
  assumes "number_mark k p = Some r"
  shows "\<exists>ds w q. p = ds @ DOT # w # q \<and> ds \<noteq> [] \<and> (\<forall>c\<in>set ds. is_digit c) \<and> is_space w"
proof -
  have 1: "rep is_digit 1 None ((lit DOT \<circ> rep is_space 1 None) k) p = Some r"
    using assms by (simp add: number_mark_def)
  obtain ds y where ds: "p = ds @ y" "\<forall>c\<in>set ds. is_digit c" "1 \<le> length ds"
    "(lit DOT \<circ> rep is_space 1 None) k y = Some r"
    using rep_Some [OF 1] by auto
  obtain y1 where y1: "y = DOT # y1" "rep is_space 1 None k y1 = Some r"
    using ds(4) by (auto simp: lit_Some)
  obtain ws y2 where ws: "y1 = ws @ y2" "\<forall>c\<in>set ws. is_space c" "1 \<le> length ws"
    using rep_Some [OF y1(2)] by auto
  obtain w ws' where w: "ws = w # ws'"
    using ws(3) by (cases ws) auto
  have "p = ds @ DOT # w # (ws' @ y2)"
    using ds(1) y1(1) ws(1) w by simp
  moreover have "is_space w" "ds \<noteq> []"
    using ws(2) w ds(3) by auto
  ultimately show ?thesis
    using ds(2) by blast
qed

lemma header_mark_Some:
  assumes "header_mark k s = Some r"
  shows "\<exists>x y. s = x @ y \<and> nws x \<le> 2 \<and> (\<forall>c\<in>set x. c = HASH \<or> is_space c) \<and>
           is_space (last x) \<and> k y = Some r"
proof -
  have "lit HASH ((rep is_hash 0 (Some 1) \<circ> rep is_space 1 None) k) s = Some r"
    using assms by (simp add: header_mark_def)
  then obtain s1 where s1: "s = HASH # s1"
    "rep is_hash 0 (Some 1) (rep is_space 1 None k) s1 = Some r"
    by (auto simp: lit_Some)
  obtain hs s2 where hs: "s1 = hs @ s2" "length hs \<le> 1" "rep is_space 1 None k s2 = Some r"
    "\<forall>c\<in>set hs. is_hash c"
    using rep_Some [OF s1(2)] by auto
  obtain ws y where ws: "s2 = ws @ y" "\<forall>c\<in>set ws. is_space c" "k y = Some r"
    "1 \<le> length ws"
    using rep_Some [OF hs(3)] by auto
  have "ws \<noteq> []"
    using ws(4) by auto
  then have "is_space (last (HASH # hs @ ws))"
    using ws(2) by simp
  moreover have "nws hs \<le> 1"
    using hs(2) nws_le_length [of hs] by linarith
  then have "nws (HASH # hs @ ws) \<le> 2"
    using ws(2) by (simp add: nws_Cons nws_spaces)
  moreover have "s = (HASH # hs @ ws) @ y"
    using s1(1) hs(1) ws(1) by simp
  moreover have "\<forall>c\<in>set (HASH # hs @ ws). c = HASH \<or> is_space c"
    using hs(4) ws(2) by (auto simp: is_hash_def)
  ultimately show ?thesis
    using ws(3) by blast
qed

lemma line_start_Some:
  assumes "grp (alt (bol at0) (lit LF)) K s = Some r"
  shows "\<exists>h s0. s = h @ s0 \<and> (h = [] \<and> at0 \<or> h = [LF]) \<and> K h s0 = Some r"
proof -
  define K' where "K' = (\<lambda>s'. K (take (length s - length s') s) s')"
  have "alt (bol at0) (lit LF) K' s = Some r"
    using assms by (simp add: grp_def K'_def)
  from alt_Some [OF this]
  show ?thesis
  proof
    assume "bol at0 K' s = Some r"
    then have "s = [] @ s \<and> ([] = [] \<and> at0 \<or> [] = [LF]) \<and> K [] s = Some r"
      by (simp add: bol_Some K'_def)
    then show ?thesis by (intro exI [of _ "[]"] exI [of _ s])
  next
    assume "lit LF K' s = Some r"
    then obtain cs where cs: "s = LF # cs" "K' cs = Some r"
      by (auto simp: lit_Some)
    then have "s = [LF] @ cs \<and> ([LF] = [] \<and> at0 \<or> [LF] = [LF]) \<and> K [LF] cs = Some r"
      by (simp add: K'_def)
    then show ?thesis by (intro exI [of _ "[LF]"] exI [of _ cs])
  qed
qed

lemma bold_rule_Some:
  assumes "bold_rule at0 s = Some (out, rest)"
  shows "\<exists>g1 x ws. s = g1 @ [STAR, STAR] @ x @ [STAR, STAR, COLON] @ ws @ rest \<and>
           out = g1 @ js ''### '' @ x @ [LF, LF] \<and>
           (g1 = [] \<and> at0 \<or> g1 = [LF]) \<and>
           (\<forall>c\<in>set x. bold_char c) \<and> (\<forall>c\<in>set ws. is_space c)"
proof -
  define K2 where "K2 = (\<lambda>g1 g2. (lit STAR \<circ> lit STAR \<circ> lit COLON \<circ> rep is_space 0 None)
      (\<lambda>rest. Some (g1 :: jstring, g2 :: jstring, rest)))"
  define K1 where "K1 = (\<lambda>g1. (lit STAR \<circ> lit STAR) (grp (rep bold_char 3 (Some 60)) (K2 g1)))"
  obtain g1 g2 where m: "bold_re at0 s = Some (g1, g2, rest)"
    and out: "out = g1 @ js ''### '' @ g2 @ [LF, LF]"
    using assms by (auto simp: bold_rule_def split: option.splits)
  have "grp (alt (bol at0) (lit LF)) K1 s = Some (g1, g2, rest)"
    using m by (simp add: bold_re_def K1_def K2_def)
  from line_start_Some [OF this]
  obtain h s0 where s0: "s = h @ s0" "h = [] \<and> at0 \<or> h = [LF]" "K1 h s0 = Some (g1, g2, rest)"
    by auto
  obtain s1 where s1: "s0 = STAR # STAR # s1" "grp (rep bold_char 3 (Some 60)) (K2 h) s1 = Some (g1, g2, rest)"
    using s0(3) by (auto simp: K1_def lit_Some)
  have "rep bold_char 3 (Some 60) (\<lambda>s'. K2 h (take (length s1 - length s') s1) s') s1 = Some (g1, g2, rest)"
    using s1(2) by (simp add: grp_def)
  from rep_Some [OF this]
  obtain x y where x: "s1 = x @ y" "\<forall>c\<in>set x. bold_char c" "K2 h x y = Some (g1, g2, rest)"
    by auto
  obtain y1 where y1: "y = STAR # STAR # COLON # y1"
    "rep is_space 0 None (\<lambda>rest. Some (h, x, rest)) y1 = Some (g1, g2, rest)"
    using x(3) by (auto simp: K2_def lit_Some)
  from rep_Some [OF y1(2)]
  obtain ws where ws: "y1 = ws @ rest" "\<forall>c\<in>set ws. is_space c" "g1 = h" "g2 = x"
    by auto
  have "s = h @ [STAR, STAR] @ x @ [STAR, STAR, COLON] @ ws @ rest"
    using s0(1) s1(1) x(1) y1(1) ws(1) by simp
  moreover have "out = h @ js ''### '' @ x @ [LF, LF]"
    using out ws(3,4) by simp
  ultimately show ?thesis
    using s0(2) x(2) ws(2) by blast
qed

lemma title_rule_Some:
  assumes "title_rule at0 s = Some (out, rest)"
  shows "\<exists>g1 u x ws. s = g1 @ (u # x) @ [COLON] @ ws @ [LF] @ rest \<and>
           out = g1 @ js ''### '' @ (u # x) @ [LF] \<and>
           (g1 = [] \<and> at0 \<or> g1 = [LF]) \<and> is_upper u \<and>
           (\<forall>c\<in>set x. title_char c) \<and> (\<forall>c\<in>set ws. is_space c)"
proof -
  define K2 where "K2 = (\<lambda>g1 g2. (lit COLON \<circ> rep is_space 0 None \<circ> lit LF)
      (\<lambda>rest. Some (g1 :: jstring, g2 :: jstring, rest)))"
  define K1 where "K1 = (\<lambda>g1. grp (cls is_upper \<circ> rep title_char 4 (Some 80)) (K2 g1))"
  obtain g1 g2 where m: "title_re at0 s = Some (g1, g2, rest)"
    and out: "out = g1 @ js ''### '' @ g2 @ [LF]"
    using assms by (auto simp: title_rule_def split: option.splits)
  have "grp (alt (bol at0) (lit LF)) K1 s = Some (g1, g2, rest)"
    using m by (simp add: title_re_def K1_def K2_def)
  from line_start_Some [OF this]
  obtain h s0 where s0: "s = h @ s0" "h = [] \<and> at0 \<or> h = [LF]" "K1 h s0 = Some (g1, g2, rest)"
    by auto
  have "cls is_upper (rep title_char 4 (Some 80) (\<lambda>s'. K2 h (take (length s0 - length s') s0) s')) s0
      = Some (g1, g2, rest)"
    using s0(3) by (simp add: K1_def grp_def)
  then obtain u s1 where u: "s0 = u # s1" "is_upper u"
    "rep title_char 4 (Some 80) (\<lambda>s'. K2 h (take (length s0 - length s') s0) s') s1 = Some (g1, g2, rest)"
    by (auto simp: cls_Some)
  from rep_Some [OF u(3)]
  obtain x y where x: "s1 = x @ y" "\<forall>c\<in>set x. title_char c"
    "K2 h (take (length s0 - length y) s0) y = Some (g1, g2, rest)"
    by auto
  have "take (length s0 - length y) s0 = u # x"
    using u(1) x(1) by simp
  then have "K2 h (u # x) y = Some (g1, g2, rest)"
    using x(3) by simp
  then obtain y1 where y1: "y = COLON # y1"
    "rep is_space 0 None (lit LF (\<lambda>rest. Some (h, u # x, rest))) y1 = Some (g1, g2, rest)"
    by (auto simp: K2_def lit_Some)
  from rep_Some [OF y1(2)]
  obtain ws y2 where ws: "y1 = ws @ y2" "\<forall>c\<in>set ws. is_space c"
    "lit LF (\<lambda>rest. Some (h, u # x, rest)) y2 = Some (g1, g2, rest)"
    by auto
  then have y2: "y2 = LF # rest" "g1 = h" "g2 = u # x"
    by (auto simp: lit_Some)
  have "s = h @ (u # x) @ [COLON] @ ws @ [LF] @ rest"
    using s0(1) u(1) x(1) y1(1) ws(1) y2(1) by simp
  moreover have "out = h @ js ''### '' @ (u # x) @ [LF]"
    using out y2(2,3) by simp
  ultimately show ?thesis
    using s0(2) u(2) x(2) ws(2) by blast
qed

lemma strip_rule_Some:
  assumes "strip_rule at0 s = Some (out, rest)"
  shows "at0 \<and> out = [] \<and>
         (\<exists>x. s = x @ rest \<and> nws x \<le> 2 \<and> (\<forall>c\<in>set x. c = HASH \<or> is_space c) \<and>
              is_space (last x))"
proof -
  have at0: "at0" and h: "header_mark (\<lambda>rest. Some ([], rest)) s = Some (out, rest)"
    using assms by (auto simp: strip_rule_def bol_Some)
  from header_mark_Some [OF h]
  obtain x y where "s = x @ y" "nws x \<le> 2" "\<forall>c\<in>set x. c = HASH \<or> is_space c"
    "is_space (last x)" "Some ([], y) = Some (out, rest)"
    by auto
  then show ?thesis using at0 by auto
qed

lemma replace_first_strip_False: "replace_first strip_rule False s = s"
  by (induction s) (auto simp: strip_rule_def bol_def)

lemma replace_first_strip:
  "\<exists>x. s = x @ replace_first strip_rule True s \<and> nws x \<le> 2 \<and>
        (\<forall>c\<in>set x. c = HASH \<or> is_space c) \<and> (x = [] \<or> is_space (last x))"
proof (cases "strip_rule True s")
  case None
  then have "replace_first strip_rule True s = s"
    by (cases s) (simp_all add: replace_first_strip_False)
  then show ?thesis by simp
next
  case (Some a)
  obtain out rest where a: "a = (out, rest)" by (cases a)
  from strip_rule_Some [OF Some [unfolded a]]
  obtain x where x: "out = []" "s = x @ rest" "nws x \<le> 2"
    "\<forall>c\<in>set x. c = HASH \<or> is_space c" "is_space (last x)"
    by auto
  have "replace_first strip_rule True s = rest"
    using Some a x(1) by (cases s) simp_all
  then show ?thesis using x by auto
qed

section \<open>Splitting at line feeds\<close>

text \<open>
  The three separators of the program match a line feed (and look ahead, two of them):
  what follows is proved for every separator of that kind.
\<close>

lemma split_loop_Cons:
  assumes "\<And>s r. sep s = Some r \<Longrightarrow> s = LF # r"
  shows "split_loop sep acc (c # cs) =
           (if sep (c # cs) = None then split_loop sep (acc @ [c]) cs
            else acc # split_loop sep [] cs)"
proof (cases "sep (c # cs)")
  case None
  then show ?thesis by simp
next
  case (Some r)
  then have "r = cs" using assms by blast
  then show ?thesis using Some by simp
qed

lemma split_loop_not_Nil: "split_loop sep acc s \<noteq> []"
  by (induction sep acc s rule: split_loop.induct) (auto split: option.splits)

lemma split_not_Nil:
  assumes "\<And>s r. sep s = Some r \<Longrightarrow> s = LF # r"
  shows "split sep s \<noteq> []"
proof (cases "s = []")
  case True
  have "sep [] = None"
    using assms by (cases "sep []") auto
  then show ?thesis using True by (simp add: split_def)
next
  case False
  then show ?thesis by (simp add: split_def split_loop_not_Nil)
qed

lemma nws_split_loop:
  assumes "\<And>s r. sep s = Some r \<Longrightarrow> s = LF # r"
  shows "sum_list (map nws (split_loop sep acc s)) = nws acc + nws s"
proof (induction s arbitrary: acc)
  case Nil
  show ?case by simp
next
  case (Cons c cs)
  show ?case
  proof (cases "sep (c # cs)")
    case None
    then show ?thesis
      using Cons.IH [of "acc @ [c]"] by (simp add: split_loop_Cons [OF assms] nws_Cons del: split_loop.simps(2))
  next
    case (Some r)
    then have "c = LF" using assms by blast
    then show ?thesis
      using Some Cons.IH [of "[]"] by (simp add: split_loop_Cons [OF assms] nws_Cons del: split_loop.simps(2))
  qed
qed

lemma nws_split:
  assumes "\<And>s r. sep s = Some r \<Longrightarrow> s = LF # r"
  shows "sum_list (map nws (split sep s)) = nws s"
proof (cases "s = []")
  case True
  have "sep [] = None"
    using assms by (cases "sep []") auto
  then show ?thesis using True by (simp add: split_def)
next
  case False
  then show ?thesis by (simp add: split_def nws_split_loop [OF assms])
qed

lemma lf_sep_lf: "lf_sep s = Some r \<Longrightarrow> s = LF # r"
  by (simp add: lf_sep_Some)

lemma story_sep_lf: "story_sep s = Some r \<Longrightarrow> s = LF # r"
  by (simp add: story_sep_Some)

lemma section_sep_lf: "section_sep s = Some r \<Longrightarrow> s = LF # r"
  by (simp add: section_sep_Some)

lemma nws_join_lf: "nws (join_lf xs) = sum_list (map nws xs)"
  by (induction xs rule: join_lf.induct) (simp_all add: nws_Cons)

lemma nws_trimmed_pieces:
  "sum_list (map nws (filter (\<lambda>p. p \<noteq> []) (map trim ps))) = sum_list (map nws ps)"
proof (induction ps)
  case Nil
  show ?case by simp
next
  case (Cons p ps)
  have "trim p = [] \<Longrightarrow> nws p = 0"
    using nws_trim [of p] by simp
  then show ?case using Cons by auto
qed

section \<open>The card of a block\<close>

lemma make_card_Inr:
  assumes "make_card block = Inr c"
  shows "\<exists>l ls. split lf_sep block = l # ls \<and>
           (let t = trim (replace_first strip_rule True (trim l))
            in title c = (if t \<noteq> [] then t else js ''Top story'')) \<and>
           (trim (join_lf ls) = [] \<and> body c = [] \<and> subcards c = [] \<or>
            (\<exists>p ps. trim (join_lf ls) \<noteq> [] \<and>
               split section_sep (trim (join_lf ls)) = p # ps \<and>
               body c = trim p \<and> subcards c = filter (\<lambda>p. p \<noteq> []) (map trim ps)))"
proof -
  obtain l ls where lines: "split lf_sep block = l # ls"
    using split_not_Nil [of lf_sep block] lf_sep_lf by (cases "split lf_sep block") auto
  define rest where "rest = trim (join_lf ls)"
  show ?thesis
  proof (cases "rest = []")
    case True
    then have "title c = (let t = trim (replace_first strip_rule True (trim l))
            in if t \<noteq> [] then t else js ''Top story'') \<and> body c = [] \<and> subcards c = []"
      using assms lines by (auto simp: make_card_def Let_def rest_def)
    then show ?thesis
      using lines True unfolding rest_def Let_def by blast
  next
    case False
    obtain p ps where parts: "split section_sep rest = p # ps"
      using split_not_Nil [of section_sep rest] section_sep_lf
      by (cases "split section_sep rest") auto
    have "title c = (let t = trim (replace_first strip_rule True (trim l))
            in if t \<noteq> [] then t else js ''Top story'') \<and> body c = trim p \<and>
          subcards c = filter (\<lambda>p. p \<noteq> []) (map trim ps)"
      using assms lines False parts by (cases ps) (auto simp: make_card_def Let_def rest_def)
    then show ?thesis
      using lines False parts unfolding rest_def Let_def by blast
  qed
qed

lemma nws_make_card:
  assumes "make_card block = Inr c"
  shows "nws block \<le> card_nws c + 2"
proof -
  from make_card_Inr [OF assms]
  obtain l ls where lines: "split lf_sep block = l # ls"
    and t: "title c = (if trim (replace_first strip_rule True (trim l)) \<noteq> []
                       then trim (replace_first strip_rule True (trim l)) else js ''Top story'')"
    and r: "trim (join_lf ls) = [] \<and> body c = [] \<and> subcards c = [] \<or>
            (\<exists>p ps. trim (join_lf ls) \<noteq> [] \<and>
               split section_sep (trim (join_lf ls)) = p # ps \<and>
               body c = trim p \<and> subcards c = filter (\<lambda>p. p \<noteq> []) (map trim ps))"
    unfolding Let_def by blast
  have "sum_list (map nws (split lf_sep block)) = nws block"
    using nws_split [of lf_sep block] lf_sep_lf by blast
  then have block: "nws block = nws l + sum_list (map nws ls)"
    using lines by simp
  obtain x where x: "trim l = x @ replace_first strip_rule True (trim l)" "nws x \<le> 2"
    using replace_first_strip by blast
  have "nws l = nws (x @ replace_first strip_rule True (trim l))"
    using x(1) nws_trim [of l] by simp
  then have "nws l \<le> 2 + nws (trim (replace_first strip_rule True (trim l)))"
    using x(2) by simp
  moreover have "nws (trim (replace_first strip_rule True (trim l))) \<le> nws (title c)"
    using t by (auto simp del: nws_trim)
  ultimately have first: "nws l \<le> 2 + nws (title c)"
    by linarith
  have rest: "sum_list (map nws ls) = nws (body c) + sum_list (map nws (subcards c))"
    using r
  proof
    assume a: "trim (join_lf ls) = [] \<and> body c = [] \<and> subcards c = []"
    then have "nws (join_lf ls) = 0"
      using nws_trim [of "join_lf ls"] by simp
    then show ?thesis using a by (simp add: nws_join_lf)
  next
    assume "\<exists>p ps. trim (join_lf ls) \<noteq> [] \<and>
               split section_sep (trim (join_lf ls)) = p # ps \<and>
               body c = trim p \<and> subcards c = filter (\<lambda>p. p \<noteq> []) (map trim ps)"
    then obtain p ps where p: "split section_sep (trim (join_lf ls)) = p # ps"
      "body c = trim p" "subcards c = filter (\<lambda>p. p \<noteq> []) (map trim ps)"
      by blast
    have "sum_list (map nws (split section_sep (trim (join_lf ls)))) = nws (trim (join_lf ls))"
      using nws_split [of section_sep] section_sep_lf by blast
    then have "nws p + sum_list (map nws ps) = sum_list (map nws ls)"
      using p(1) by (simp add: nws_join_lf)
    then show ?thesis
      using p(2,3) by (simp add: nws_trimmed_pieces)
  qed
  show ?thesis
    using block first rest by (simp add: card_nws_def)
qed

section \<open>Content preservation\<close>

lemma nws_cards:
  "list_all2 (\<lambda>b c. make_card b = Inr c) blocks cards \<Longrightarrow>
   sum_list (map nws blocks) \<le> cards_nws cards + 2 * length cards"
proof (induction rule: list_all2_induct)
  case Nil
  show ?case by (simp add: cards_nws_def)
next
  case (Cons b bs c cs)
  have "nws b \<le> card_nws c + 2"
    using Cons.hyps(1) by (rule nws_make_card)
  then show ?case
    using Cons.IH by (simp add: cards_nws_def)
qed

lemma nws_splitIntoDigest:
  assumes "splitIntoDigest t = Inr cards"
  shows "nws t \<le> cards_nws cards + 2 * length cards"
proof (cases "trim t = []")
  case True
  then have "nws t = 0"
    using nws_trim [of t] by simp
  then show ?thesis by simp
next
  case False
  from splitIntoDigest_blocks [OF this]
  obtain blocks cards' where b: "splitIntoDigest t = Inr cards'"
    "list_all2 (\<lambda>b c. make_card b = Inr c) blocks cards'"
    "blocks = [trim t] \<or>
     blocks = filter (\<lambda>b. b \<noteq> []) (map trim (split story_sep (trim t)))"
    by blast
  have "sum_list (map nws (split story_sep (trim t))) = nws (trim t)"
    using nws_split [of story_sep] story_sep_lf by blast
  then have "sum_list (map nws blocks) = nws t"
    using b(3) by (auto simp: nws_trimmed_pieces)
  moreover have "cards' = cards"
    using b(1) assms by simp
  ultimately show ?thesis
    using nws_cards [OF b(2)] by simp
qed

lemma content_Nil [simp]: "content [] = 0"
  by (simp add: content_def)

lemma content_append [simp]: "content (a @ b) = content a + content b"
  by (simp add: content_def)

lemma content_Cons: "content (c # s) = (if \<not> is_space c \<and> c \<noteq> HASH then 1 else 0) + content s"
  by (simp add: content_def)

lemma content_marker: "\<forall>c\<in>set a. c = HASH \<or> is_space c \<Longrightarrow> content a = 0"
  by (induction a) (auto simp: content_Cons)

lemma content_trim [simp]: "content (trim s) = content s"
proof -
  obtain a b where "s = a @ trim s @ b" "\<forall>c\<in>set a. is_space c" "\<forall>c\<in>set b. is_space c"
    using trim_decomp by blast
  then have "content s = content a + content (trim s) + content b" "content a = 0"
    "content b = 0"
    by (metis content_append add.assoc, simp_all add: content_marker)
  then show ?thesis by simp
qed

lemma content_split_loop:
  assumes "\<And>s r. sep s = Some r \<Longrightarrow> s = LF # r"
  shows "sum_list (map content (split_loop sep acc s)) = content acc + content s"
proof (induction s arbitrary: acc)
  case Nil
  show ?case by simp
next
  case (Cons c cs)
  show ?case
  proof (cases "sep (c # cs)")
    case None
    then show ?thesis
      using Cons.IH [of "acc @ [c]"]
      by (simp add: split_loop_Cons [OF assms] content_Cons del: split_loop.simps(2))
  next
    case (Some r)
    then have "c = LF" using assms by blast
    then show ?thesis
      using Some Cons.IH [of "[]"]
      by (simp add: split_loop_Cons [OF assms] content_Cons del: split_loop.simps(2))
  qed
qed

lemma content_split:
  assumes "\<And>s r. sep s = Some r \<Longrightarrow> s = LF # r"
  shows "sum_list (map content (split sep s)) = content s"
proof (cases "s = []")
  case True
  have "sep [] = None"
    using assms by (cases "sep []") auto
  then show ?thesis using True by (simp add: split_def)
next
  case False
  then show ?thesis by (simp add: split_def content_split_loop [OF assms])
qed

lemma content_join_lf: "content (join_lf xs) = sum_list (map content xs)"
  by (induction xs rule: join_lf.induct) (simp_all add: content_Cons)

lemma content_trimmed_pieces:
  "sum_list (map content (filter (\<lambda>p. p \<noteq> []) (map trim ps))) = sum_list (map content ps)"
proof (induction ps)
  case Nil
  show ?case by simp
next
  case (Cons p ps)
  have "trim p = [] \<Longrightarrow> content p = 0"
    using content_trim [of p] by simp
  then show ?case using Cons by auto
qed

lemma content_make_card:
  assumes "make_card block = Inr c"
  shows "content block \<le> card_content c"
proof -
  from make_card_Inr [OF assms]
  obtain l ls where lines: "split lf_sep block = l # ls"
    and t: "title c = (if trim (replace_first strip_rule True (trim l)) \<noteq> []
                       then trim (replace_first strip_rule True (trim l)) else js ''Top story'')"
    and r: "trim (join_lf ls) = [] \<and> body c = [] \<and> subcards c = [] \<or>
            (\<exists>p ps. trim (join_lf ls) \<noteq> [] \<and>
               split section_sep (trim (join_lf ls)) = p # ps \<and>
               body c = trim p \<and> subcards c = filter (\<lambda>p. p \<noteq> []) (map trim ps))"
    unfolding Let_def by blast
  have "sum_list (map content (split lf_sep block)) = content block"
    using content_split [of lf_sep block] lf_sep_lf by blast
  then have block: "content block = content l + sum_list (map content ls)"
    using lines by simp
  obtain x where x: "trim l = x @ replace_first strip_rule True (trim l)"
    "\<forall>c\<in>set x. c = HASH \<or> is_space c"
    using replace_first_strip by blast
  have "content l = content (x @ replace_first strip_rule True (trim l))"
    using x(1) content_trim [of l] by simp
  then have "content l = content (trim (replace_first strip_rule True (trim l)))"
    using content_marker [OF x(2)] by simp
  moreover have "content (trim (replace_first strip_rule True (trim l))) \<le> content (title c)"
    using t by (auto simp del: content_trim)
  ultimately have first: "content l \<le> content (title c)"
    by linarith
  have rest: "sum_list (map content ls) = content (body c) + sum_list (map content (subcards c))"
    using r
  proof
    assume a: "trim (join_lf ls) = [] \<and> body c = [] \<and> subcards c = []"
    then have "content (join_lf ls) = 0"
      using content_trim [of "join_lf ls"] by simp
    then show ?thesis using a by (simp add: content_join_lf)
  next
    assume "\<exists>p ps. trim (join_lf ls) \<noteq> [] \<and>
               split section_sep (trim (join_lf ls)) = p # ps \<and>
               body c = trim p \<and> subcards c = filter (\<lambda>p. p \<noteq> []) (map trim ps)"
    then obtain p ps where p: "split section_sep (trim (join_lf ls)) = p # ps"
      "body c = trim p" "subcards c = filter (\<lambda>p. p \<noteq> []) (map trim ps)"
      by blast
    have "sum_list (map content (split section_sep (trim (join_lf ls)))) =
        content (trim (join_lf ls))"
      using content_split [of section_sep] section_sep_lf by blast
    then have "content p + sum_list (map content ps) = sum_list (map content ls)"
      using p(1) by (simp add: content_join_lf)
    then show ?thesis
      using p(2,3) by (simp add: content_trimmed_pieces)
  qed
  show ?thesis
    using block first rest by (simp add: card_content_def)
qed

lemma content_cards:
  "list_all2 (\<lambda>b c. make_card b = Inr c) blocks cards \<Longrightarrow>
   sum_list (map content blocks) \<le> cards_content cards"
proof (induction rule: list_all2_induct)
  case Nil
  show ?case by (simp add: cards_content_def)
next
  case (Cons b bs c cs)
  have "content b \<le> card_content c"
    using Cons.hyps(1) by (rule content_make_card)
  then show ?case
    using Cons.IH by (simp add: cards_content_def)
qed

lemma content_splitIntoDigest:
  assumes "splitIntoDigest t = Inr cards"
  shows "content t \<le> cards_content cards"
proof (cases "trim t = []")
  case True
  then have "content t = 0"
    using content_trim [of t] by simp
  then show ?thesis by simp
next
  case False
  from splitIntoDigest_blocks [OF this]
  obtain blocks cards' where b: "splitIntoDigest t = Inr cards'"
    "list_all2 (\<lambda>b c. make_card b = Inr c) blocks cards'"
    "blocks = [trim t] \<or>
     blocks = filter (\<lambda>b. b \<noteq> []) (map trim (split story_sep (trim t)))"
    by blast
  have "sum_list (map content (split story_sep (trim t))) = content (trim t)"
    using content_split [of story_sep] story_sep_lf by blast
  then have "sum_list (map content blocks) = content t"
    using b(3) by (auto simp: content_trimmed_pieces)
  moreover have "cards' = cards"
    using b(1) assms by simp
  ultimately show ?thesis
    using content_cards [OF b(2)] by simp
qed

text \<open>
  C2, as the code has it: the cards of the normalized text hold all of its code units that
  are not whitespace, but for the header marker the segmenter strips from the first line
  of each story block: at most two code units for each card, and hashes only, since the
  count of the code units that are neither whitespace nor a hash does not go down. The
  markers stripped need not come from the normalizer.
\<close>

theorem digest_keeps_content:
  assumes "digest s = Inr cards"
  shows "nws (prettifyMarkdown s) \<le> cards_nws cards + 2 * length cards \<and>
         content (prettifyMarkdown s) \<le> cards_content cards"
  using assms nws_splitIntoDigest content_splitIntoDigest unfolding digest_def by blast

theorem digest_keeps_content_witness:
  "digest (js ''## Story\<newline>body'') =
     Inr [\<lparr>title = js ''Story'', body = js ''body'', subcards = []\<rparr>] \<and>
   nws (prettifyMarkdown (js ''## Story\<newline>body''))
     \<le> cards_nws [\<lparr>title = js ''Story'', body = js ''body'', subcards = []\<rparr>]
         + 2 * length [\<lparr>title = js ''Story'', body = js ''body'', subcards = []\<rparr>] \<and>
   content (prettifyMarkdown (js ''## Story\<newline>body''))
     \<le> cards_content [\<lparr>title = js ''Story'', body = js ''body'', subcards = []\<rparr>]"
proof -
  have h: "digest (js ''## Story\<newline>body'') =
     Inr [\<lparr>title = js ''Story'', body = js ''body'', subcards = []\<rparr>]"
    by code_simp
  show ?thesis
    using h digest_keeps_content [OF h] by simp
qed

text \<open>
  Against C2 as it is stated: the input \<open>"## Story\nbody"\<close> is left as it is by the
  normalizer, so the normalizer introduces no marker; the one card has fewer code units
  that are not whitespace than the normalized text.
\<close>

theorem digest_keeps_content_counterexample:
  "prettifyMarkdown (js ''## Story\<newline>body'') = js ''## Story\<newline>body'' \<and>
   digest (js ''## Story\<newline>body'') =
     Inr [\<lparr>title = js ''Story'', body = js ''body'', subcards = []\<rparr>] \<and>
   cards_nws [\<lparr>title = js ''Story'', body = js ''body'', subcards = []\<rparr>]
     < nws (prettifyMarkdown (js ''## Story\<newline>body''))"
  by code_simp

section \<open>The scenarios\<close>

text \<open>
  C3, as the code has it: for the input \<open>"Just one paragraph with no structure at all."\<close>
  the result is one card whose title is the input text, whose body is empty and whose
  list of subcards is empty. The first line of a block is always its title (lemma
  \<open>title_is_first_line\<close> below: the default title \<open>"Top story"\<close> is never used), and
  the text has one line.
\<close>

theorem scenario_B:
  "digest (js ''Just one paragraph with no structure at all.'') =
     Inr [\<lparr>title = js ''Just one paragraph with no structure at all.'',
           body = [], subcards = []\<rparr>]"
  by code_simp

text \<open>Against C3 as it is stated: the result is not the card titled \<open>"Top story"\<close>.\<close>

theorem scenario_B_counterexample:
  "digest (js ''Just one paragraph with no structure at all.'') \<noteq>
     Inr [\<lparr>title = js ''Top story'',
           body = trim (js ''Just one paragraph with no structure at all.''),
           subcards = []\<rparr>]"
  by code_simp

text \<open>
  C4: on the input \<open>"**Market Update:**\nStocks rose today."\<close> the normalizer changes
  nothing, and the title of the one card is the whole first line \<open>"**Market Update:**"\<close>,
  not \<open>"Market Update"\<close>. The comment on the bold rule in the source gives
  \<open>"**Section:**" -> ### Section\<close> as its effect, but the pattern of the rule wants the
  colon after the closing \<open>**\<close>.
\<close>

theorem scenario_D:
  "prettifyMarkdown (js ''**Market Update:**\<newline>Stocks rose today.'') =
     js ''**Market Update:**\<newline>Stocks rose today.'' \<and>
   digest (js ''**Market Update:**\<newline>Stocks rose today.'') =
     Inr [\<lparr>title = js ''**Market Update:**'', body = js ''Stocks rose today.'',
           subcards = []\<rparr>]"
  by code_simp

text \<open>
  With the colon after the closing \<open>**\<close> the rule does rewrite the line. The segmenter
  then keeps the marker in the title: it strips one or two hashes, and the normalizer
  writes three.
\<close>

lemma scenario_D_colon_outside:
  "prettifyMarkdown (js ''**Market Update**:\<newline>Stocks rose today.'') =
     js ''### Market Update\<newline>\<newline>Stocks rose today.'' \<and>
   digest (js ''**Market Update**:\<newline>Stocks rose today.'') =
     Inr [\<lparr>title = js ''### Market Update'', body = js ''Stocks rose today.'',
           subcards = []\<rparr>]"
  by code_simp

section \<open>The normalizer on blank input\<close>

lemma bold_rule_Nil: "bold_rule at0 [] = None"
proof (cases "bold_rule at0 []")
  case (Some a)
  obtain out rest where "a = (out, rest)" by (cases a)
  from bold_rule_Some [OF Some [unfolded this]] show ?thesis by auto
qed simp

lemma title_rule_Nil: "title_rule at0 [] = None"
proof (cases "title_rule at0 []")
  case (Some a)
  obtain out rest where "a = (out, rest)" by (cases a)
  from title_rule_Some [OF Some [unfolded this]] show ?thesis by auto
qed simp

lemma replace_all_Nil: "m at0 [] = None \<Longrightarrow> replace_all m at0 [] = []"
  by (simp add: replace_all.simps [of m at0 "[]"])

text \<open>
  C5, as the code has it: the normalizer returns the empty string for every input that is
  empty or holds only whitespace. The empty input is returned as it is; an input of
  whitespace is trimmed to the empty string, so it is not returned unchanged. No error
  is signalled.
\<close>

theorem prettifyMarkdown_blank:
  "list_all is_space s \<Longrightarrow> prettifyMarkdown s = []"
proof -
  assume "list_all is_space s"
  then have "trim s = []"
    by (simp add: trim_Nil_iff list_all_iff)
  then show ?thesis
    by (simp add: prettifyMarkdown_def replace_all_Nil bold_rule_Nil title_rule_Nil)
qed

theorem prettifyMarkdown_blank_witness:
  "list_all is_space (js ''  '') \<and> prettifyMarkdown (js ''  '') = []"
proof -
  have h: "list_all is_space (js ''  '')" by code_simp
  show ?thesis using h prettifyMarkdown_blank [OF h] by simp
qed

text \<open>Against C5 as it is stated: a single space is not returned unchanged.\<close>

theorem prettifyMarkdown_blank_counterexample:
  "list_all is_space (js '' '') \<and> prettifyMarkdown (js '' '') \<noteq> js '' ''"
  by code_simp

section \<open>The pieces of a split\<close>

lemma split_loop_hd:
  assumes "\<And>s r. sep s = Some r \<Longrightarrow> s = LF # r"
  shows "\<exists>p q ps. split_loop sep acc s = (acc @ p) # ps \<and> s = p @ q \<and>
           (q = [] \<or> hd q = LF)"
proof (induction s arbitrary: acc)
  case Nil
  have "split_loop sep acc [] = (acc @ []) # [] \<and> [] = [] @ [] \<and> ([] = [] \<or> hd [] = LF)"
    by simp
  then show ?case by (intro exI)
next
  case (Cons c cs)
  show ?case
  proof (cases "sep (c # cs)")
    case None
    obtain p q ps where *: "split_loop sep (acc @ [c]) cs = ((acc @ [c]) @ p) # ps"
      "cs = p @ q" "q = [] \<or> hd q = LF"
      using Cons.IH by blast
    have "split_loop sep acc (c # cs) = (acc @ (c # p)) # ps \<and> c # cs = (c # p) @ q \<and>
        (q = [] \<or> hd q = LF)"
      using None * by (simp add: split_loop_Cons [OF assms] del: split_loop.simps(2))
    then show ?thesis by (intro exI)
  next
    case (Some r)
    then have "c = LF" using assms by blast
    then have "split_loop sep acc (c # cs) = (acc @ []) # split_loop sep [] cs \<and>
        c # cs = [] @ (c # cs) \<and> (c # cs = [] \<or> hd (c # cs) = LF)"
      using Some by (simp add: split_loop_Cons [OF assms] del: split_loop.simps(2))
    then show ?thesis by (intro exI)
  qed
qed

text \<open>Every piece but the first starts where the separator matched.\<close>

lemma split_loop_tl:
  assumes "\<And>s r. sep s = Some r \<Longrightarrow> s = LF # r"
  shows "p \<in> set (tl (split_loop sep acc s)) \<Longrightarrow>
         \<exists>q. sep (LF # p @ q) \<noteq> None \<and> (q = [] \<or> hd q = LF)"
proof (induction s arbitrary: acc)
  case Nil
  then show ?case by simp
next
  case (Cons c cs)
  show ?case
  proof (cases "sep (c # cs)")
    case None
    then have "p \<in> set (tl (split_loop sep (acc @ [c]) cs))"
      using Cons.prems by (simp add: split_loop_Cons [OF assms] del: split_loop.simps(2))
    then show ?thesis by (rule Cons.IH)
  next
    case (Some r)
    then have c: "c = LF" using assms by blast
    have in_tl: "p \<in> set (split_loop sep [] cs)"
      using Cons.prems Some by (simp add: split_loop_Cons [OF assms] del: split_loop.simps(2))
    obtain p0 q ps where *: "split_loop sep [] cs = ([] @ p0) # ps" "cs = p0 @ q"
      "q = [] \<or> hd q = LF"
      using split_loop_hd [OF assms] by blast
    show ?thesis
    proof (cases "p = p0")
      case True
      then have "sep (LF # p @ q) \<noteq> None \<and> (q = [] \<or> hd q = LF)"
        using Some c * by simp
      then show ?thesis by blast
    next
      case False
      then have "p \<in> set (tl (split_loop sep [] cs))"
        using in_tl *(1) by simp
      then show ?thesis by (rule Cons.IH)
    qed
  qed
qed

section \<open>The subcards of a card\<close>

lemma is_space_cases: "is_space c \<Longrightarrow> c \<le> 0x20 \<or> 0xA0 \<le> c"
proof -
  have "0x2000 \<le> c \<Longrightarrow> 0xA0 \<le> c"
    using order_trans [of "0xA0 :: uchar" "0x2000" c] by simp
  then show "is_space c \<Longrightarrow> c \<le> 0x20 \<or> 0xA0 \<le> c"
    unfolding is_space_def by (elim disjE conjE) simp_all
qed

lemma is_digit_not_space:
  assumes "is_digit c"
  shows "\<not> is_space c"
proof
  assume "is_space c"
  then have "c \<le> 0x20 \<or> 0xA0 \<le> c" by (rule is_space_cases)
  moreover have "0x30 \<le> c" "c \<le> 0x39"
    using assms by (simp_all add: is_digit_def)
  ultimately have "(0x30 :: uchar) \<le> 0x20 \<or> (0xA0 :: uchar) \<le> 0x39"
    using order_trans by blast
  then show False by simp
qed

lemma is_digit_not_LF: "is_digit c \<Longrightarrow> c \<noteq> LF"
  by (auto simp: is_digit_def)

lemma marker_piece:
  assumes "p @ q = ds @ DOT # w # r" "ds \<noteq> []" "\<forall>c\<in>set ds. is_digit c" "is_space w"
    "q = [] \<or> hd q = LF"
  shows "\<exists>p'. p = ds @ DOT # p' \<and> (p' = [] \<or> is_space (hd p'))"
proof -
  from assms(1) consider u where "p = ds @ u" "u @ q = DOT # w # r"
    | u where "p @ u = ds" "q = u @ DOT # w # r"
    by (auto simp: append_eq_append_conv2)
  then show ?thesis
  proof cases
    case 1
    show ?thesis
    proof (cases u)
      case Nil
      then have "q = DOT # w # r" using 1(2) by simp
      then show ?thesis using assms(5) by simp
    next
      case (Cons a u')
      then have a: "a = DOT" "u' @ q = w # r" using 1(2) by auto
      have "u' = [] \<or> is_space (hd u')"
        using a(2) assms(4) by (cases u') auto
      then show ?thesis using 1(1) Cons a(1) by simp
    qed
  next
    case 2
    have "q \<noteq> []" using 2(2) by simp
    then have "hd q = LF" using assms(5) by simp
    moreover have "hd q = DOT \<or> hd q \<in> set ds"
      using 2 by (cases u) auto
    ultimately show ?thesis
      using assms(3) is_digit_not_LF by auto
  qed
qed

lemma trim_marker:
  assumes "ds \<noteq> []" "\<forall>c\<in>set ds. is_digit c" "p' = [] \<or> is_space (hd p')"
  shows "\<exists>p''. trim (ds @ DOT # p') = ds @ DOT # p'' \<and> (p'' = [] \<or> is_space (hd p''))"
proof -
  define p'' where "p'' = rev (dropWhile is_space (rev p'))"
  have "\<not> is_space (hd ds)"
    using assms(1,2) is_digit_not_space by (cases ds) auto
  then have 1: "dropWhile is_space (ds @ DOT # p') = ds @ DOT # p'"
    using assms(1) by (cases ds) auto
  have "\<not> is_space DOT"
    by (simp add: is_space_def)
  then have "dropWhile is_space (rev p' @ DOT # rev ds) =
      dropWhile is_space (rev p') @ DOT # rev ds"
    by (rule dropWhile_append3)
  then have t: "trim (ds @ DOT # p') = ds @ DOT # p''"
    by (simp add: trim_def 1 p''_def)
  have "p' = p'' @ rev (takeWhile is_space (rev p'))"
    unfolding p''_def by (metis rev_append rev_rev_ident takeWhile_dropWhile_id)
  then have "p'' = [] \<or> hd p'' = hd p'"
    by (metis hd_append2)
  moreover have "p'' \<noteq> [] \<Longrightarrow> p' \<noteq> []"
    by (auto simp: p''_def)
  ultimately have "p'' = [] \<or> is_space (hd p'')"
    using assms(3) by auto
  then show ?thesis using t by blast
qed

lemma starts_with_number_marker:
  assumes "ds \<noteq> []" "\<forall>c\<in>set ds. is_digit c" "p'' = [] \<or> is_space (hd p'')"
  shows "starts_with_number (ds @ DOT # p'')"
proof -
  have "\<not> is_digit DOT"
    by (simp add: is_digit_def)
  then have "takeWhile is_digit (ds @ DOT # p'') = ds"
    "dropWhile is_digit (ds @ DOT # p'') = DOT # p''"
    using assms(2) by (simp_all add: takeWhile_append2 dropWhile_append2)
  then show ?thesis
    using assms(1,3) by (cases p'') (auto simp: starts_with_number_def)
qed

lemma section_piece:
  assumes "p \<in> set (tl (split section_sep rest))"
  shows "trim p \<noteq> [] \<and> \<not> is_space (hd (trim p)) \<and> \<not> is_space (last (trim p)) \<and>
         starts_with_number (trim p)"
proof -
  have "rest \<noteq> []"
    using assms by (auto simp: split_def split: if_splits option.splits)
  then have "p \<in> set (tl (split_loop section_sep [] rest))"
    using assms by (simp add: split_def)
  from split_loop_tl [OF section_sep_lf this]
  obtain q where q: "section_sep (LF # p @ q) \<noteq> None" "q = [] \<or> hd q = LF"
    by blast
  have "starts_with_marker (p @ q)"
    using q(1) by (auto simp: section_sep_Some)
  then obtain u where "number_mark (\<lambda>_. Some ()) (p @ q) = Some u"
    by (auto simp: starts_with_marker_def)
  from number_mark_Some [OF this]
  obtain ds w r where m: "p @ q = ds @ DOT # w # r" "ds \<noteq> []" "\<forall>c\<in>set ds. is_digit c"
    "is_space w"
    by blast
  from marker_piece [OF m q(2)]
  obtain p' where p': "p = ds @ DOT # p'" "p' = [] \<or> is_space (hd p')"
    by blast
  from trim_marker [OF m(2,3) p'(2)]
  obtain p'' where p'': "trim p = ds @ DOT # p''" "p'' = [] \<or> is_space (hd p'')"
    using p'(1) by blast
  have ne: "trim p \<noteq> []"
    using p''(1) by simp
  have "starts_with_number (trim p)"
    using starts_with_number_marker [OF m(2,3) p''(2)] p''(1) by simp
  then show ?thesis
    using ne trim_hd [OF ne] trim_last [OF ne] by simp
qed

text \<open>The card of a card list is the card of a story block.\<close>

lemma splitIntoDigest_card:
  assumes "splitIntoDigest md = Inr cards" "c \<in> set cards"
  shows "\<exists>block. make_card block = Inr c \<and> block \<noteq> [] \<and>
           (block = trim md \<or> block \<in> set (map trim (split story_sep (trim md))))"
proof (cases "trim md = []")
  case True
  then show ?thesis
    using assms splitIntoDigest_empty [OF True] by simp
next
  case False
  from splitIntoDigest_blocks [OF this]
  obtain blocks cards' where b: "splitIntoDigest md = Inr cards'"
    "list_all2 (\<lambda>b c. make_card b = Inr c) blocks cards'"
    "blocks = [trim md] \<or>
     blocks = filter (\<lambda>b. b \<noteq> []) (map trim (split story_sep (trim md)))"
    by blast
  have "cards' = cards" using b(1) assms(1) by simp
  then have all: "list_all2 (\<lambda>b c. make_card b = Inr c) blocks cards"
    using b(2) by simp
  obtain i where i: "i < length cards" "cards ! i = c"
    using assms(2) by (auto simp: in_set_conv_nth)
  have "make_card (blocks ! i) = Inr c" "blocks ! i \<in> set blocks"
    using all i by (auto simp: list_all2_conv_all_nth)
  then show ?thesis using b(3) False by auto
qed

text \<open>
  C10, as the code has it: every subcard is non-empty, has no whitespace at its start or
  its end, and starts with one or more digits and a period; the period ends the subcard
  or is followed by whitespace. The whitespace the pattern requires after the period can
  be the line feed at which the next subcard is split off, so it need not be part of the
  subcard.
\<close>

theorem subcards_marker:
  assumes "splitIntoDigest md = Inr cards" "c \<in> set cards" "p \<in> set (subcards c)"
  shows "p \<noteq> [] \<and> \<not> is_space (hd p) \<and> \<not> is_space (last p) \<and> starts_with_number p"
proof -
  obtain block where "make_card block = Inr c"
    using splitIntoDigest_card [OF assms(1,2)] by blast
  from make_card_Inr [OF this] assms(3)
  obtain rest p0 ps where ps: "split section_sep rest = p0 # ps"
    "subcards c = filter (\<lambda>p. p \<noteq> []) (map trim ps)"
    by auto
  then obtain p1 where p1: "p1 \<in> set (tl (split section_sep rest))" "p = trim p1"
    using assms(3) by auto
  show ?thesis
    using section_piece [OF p1(1)] p1(2) by simp
qed

theorem subcards_marker_witness:
  "splitIntoDigest (js ''T\<newline>x\<newline>1.\<newline>2. b'') =
     Inr [\<lparr>title = js ''T'', body = js ''x'', subcards = [js ''1.'', js ''2. b'']\<rparr>] \<and>
   js ''1.'' \<noteq> [] \<and> \<not> is_space (hd (js ''1.'')) \<and> \<not> is_space (last (js ''1.'')) \<and>
   starts_with_number (js ''1.'')"
proof -
  define c where "c = \<lparr>title = js ''T'', body = js ''x'', subcards = [js ''1.'', js ''2. b'']\<rparr>"
  have h: "splitIntoDigest (js ''T\<newline>x\<newline>1.\<newline>2. b'') = Inr [c]"
    unfolding c_def by code_simp
  have m: "c \<in> set [c]" "js ''1.'' \<in> set (subcards c)"
    by (simp_all add: c_def)
  show ?thesis
    using h subcards_marker [OF h m] unfolding c_def by (intro conjI) simp_all
qed

text \<open>
  Against C10 as it is stated: the subcard \<open>"1."\<close> does not start with a numeric list
  marker, which ends in whitespace; the whitespace the pattern saw was the line feed at
  which the next subcard was split off.
\<close>

theorem subcards_marker_counterexample:
  "splitIntoDigest (js ''T\<newline>x\<newline>1.\<newline>2. b'') =
     Inr [\<lparr>title = js ''T'', body = js ''x'', subcards = [js ''1.'', js ''2. b'']\<rparr>] \<and>
   \<not> starts_with_marker (js ''1.'')"
  by code_simp

section \<open>The title of a card\<close>

text \<open>
  The default title is never used: a story block is trimmed and not empty, so its first
  line has content, and so has what is left of that line without its header marker.
\<close>

lemma first_line:
  assumes "block \<noteq> []" "\<not> is_space (hd block)"
  shows "\<exists>l ls. split lf_sep block = l # ls \<and> l \<noteq> [] \<and> \<not> is_space (hd l)"
proof -
  obtain p q ps where *: "split_loop lf_sep [] block = ([] @ p) # ps" "block = p @ q"
    "q = [] \<or> hd q = LF"
    using split_loop_hd [OF lf_sep_lf] by blast
  have "p \<noteq> []"
  proof
    assume "p = []"
    then have "hd block = LF"
      using *(2,3) assms(1) by auto
    then show False using assms(2) by simp
  qed
  then have "hd p = hd block"
    using *(2) by simp
  then have "split lf_sep block = p # ps \<and> p \<noteq> [] \<and> \<not> is_space (hd p)"
    using * assms \<open>p \<noteq> []\<close> by (simp add: split_def)
  then show ?thesis by (intro exI)
qed

lemma stripped_line_not_empty:
  assumes "l \<noteq> []" "\<not> is_space (hd l)"
  shows "trim (replace_first strip_rule True (trim l)) \<noteq> []"
proof -
  have "\<not> (\<forall>c\<in>set l. is_space c)"
    using assms by (cases l) auto
  then have fl: "trim l \<noteq> []"
    by (simp add: trim_Nil_iff)
  then have last_fl: "\<not> is_space (last (trim l))"
    by (rule trim_last)
  obtain x where x: "trim l = x @ replace_first strip_rule True (trim l)"
    "x = [] \<or> is_space (last x)"
    using replace_first_strip by blast
  define r where "r = replace_first strip_rule True (trim l)"
  have r: "r \<noteq> []"
  proof
    assume "r = []"
    then have "trim l = x" using x(1) by (simp add: r_def)
    then show False using x(2) fl last_fl by auto
  qed
  then have "last r = last (trim l)"
    using x(1) unfolding r_def by (metis last_appendR)
  then have "\<not> (\<forall>c\<in>set r. is_space c)"
    using r last_fl last_in_set by metis
  then show ?thesis
    unfolding r_def [symmetric] by (simp add: trim_Nil_iff)
qed

lemma title_is_first_line:
  assumes "splitIntoDigest md = Inr cards" "c \<in> set cards"
  shows "\<exists>block l ls. make_card block = Inr c \<and> split lf_sep block = l # ls \<and>
           title c = trim (replace_first strip_rule True (trim l))"
proof -
  obtain block where block: "make_card block = Inr c" "block \<noteq> []"
    "block = trim md \<or> block \<in> set (map trim (split story_sep (trim md)))"
    using splitIntoDigest_card [OF assms] by blast
  have "\<exists>t. block = trim t"
    using block(3) by auto
  then have "\<not> is_space (hd block)"
    using block(2) trim_hd by auto
  from first_line [OF block(2) this]
  obtain l ls where l: "split lf_sep block = l # ls" "l \<noteq> []" "\<not> is_space (hd l)"
    by blast
  from make_card_Inr [OF block(1)]
  have "title c = (if trim (replace_first strip_rule True (trim l)) \<noteq> []
                   then trim (replace_first strip_rule True (trim l)) else js ''Top story'')"
    using l(1) unfolding Let_def by auto
  then have "title c = trim (replace_first strip_rule True (trim l))"
    using stripped_line_not_empty [OF l(2,3)] by simp
  then show ?thesis
    using block(1) l(1) by blast
qed

section \<open>Order of the subcards\<close>

lemma in_order_Cons_iff:
  "in_order (x # xs) t \<longleftrightarrow> (\<exists>a b. t = a @ x @ b \<and> in_order xs b)"
proof
  assume "in_order (x # xs) t"
  then obtain i where "i \<in> set [0..<Suc (length t)]"
    and i: "take (length x) (drop i t) = x" "in_order xs (drop (i + length x) t)"
    unfolding in_order.simps list_ex_iff by blast
  have "drop i t = take (length x) (drop i t) @ drop (length x) (drop i t)"
    by (rule append_take_drop_id [symmetric])
  then have "drop i t = x @ drop (i + length x) t"
    using i(1) by (simp add: add.commute)
  then have "t = take i t @ x @ drop (i + length x) t"
    by (metis append_take_drop_id)
  then show "\<exists>a b. t = a @ x @ b \<and> in_order xs b"
    using i(2) by blast
next
  assume "\<exists>a b. t = a @ x @ b \<and> in_order xs b"
  then obtain a b where ab: "t = a @ x @ b" "in_order xs b"
    by blast
  have "length a \<in> set [0..<Suc (length t)]"
    using ab(1) by simp
  moreover have "take (length x) (drop (length a) t) = x \<and>
      in_order xs (drop (length a + length x) t)"
    using ab by simp
  ultimately show "in_order (x # xs) t"
    unfolding in_order.simps list_ex_iff by blast
qed

declare in_order.simps(2) [simp del]

lemma in_order_prepend: "in_order xs t \<Longrightarrow> in_order xs (a @ t)"
proof (cases xs)
  case Nil
  then show ?thesis by simp
next
  case (Cons x xs')
  assume "in_order xs t"
  then obtain a' b where "t = a' @ x @ b" "in_order xs' b"
    unfolding Cons in_order_Cons_iff by blast
  then have "a @ t = (a @ a') @ x @ b \<and> in_order xs' b"
    by simp
  then show ?thesis
    unfolding Cons in_order_Cons_iff by blast
qed

lemma in_order_append: "in_order xs t \<Longrightarrow> in_order xs (t @ c)"
proof (induction xs arbitrary: t)
  case Nil
  show ?case by simp
next
  case (Cons x xs)
  then obtain a b where ab: "t = a @ x @ b" "in_order xs b"
    unfolding in_order_Cons_iff by blast
  have "t @ c = a @ x @ (b @ c) \<and> in_order xs (b @ c)"
    using ab(1) Cons.IH [OF ab(2)] by simp
  then show ?case
    unfolding in_order_Cons_iff by blast
qed

lemma in_order_filter: "in_order xs t \<Longrightarrow> in_order (filter P xs) t"
proof (induction xs arbitrary: t)
  case Nil
  show ?case by simp
next
  case (Cons x xs)
  then obtain a b where ab: "t = a @ x @ b" "in_order xs b"
    unfolding in_order_Cons_iff by blast
  have f: "in_order (filter P xs) b"
    using ab(2) by (rule Cons.IH)
  show ?case
  proof (cases "P x")
    case True
    then show ?thesis
      using ab(1) f by (auto simp: in_order_Cons_iff)
  next
    case False
    have "in_order (filter P xs) ((a @ x) @ b)"
      using f by (rule in_order_prepend)
    then show ?thesis using False ab(1) by simp
  qed
qed

text \<open>Each string may be replaced by a part of itself.\<close>

lemma in_order_parts:
  "list_all2 (\<lambda>y x. \<exists>u v. x = u @ y @ v) ys xs \<Longrightarrow> in_order xs t \<Longrightarrow> in_order ys t"
proof (induction arbitrary: t rule: list_all2_induct)
  case Nil
  show ?case by simp
next
  case (Cons y ys x xs)
  obtain u v where x: "x = u @ y @ v"
    using Cons.hyps(1) by blast
  obtain a b where ab: "t = a @ x @ b" "in_order xs b"
    using Cons.prems unfolding in_order_Cons_iff by blast
  have "in_order ys (v @ b)"
    using Cons.IH [OF ab(2)] by (rule in_order_prepend)
  moreover have "t = (a @ u) @ y @ (v @ b)"
    using ab(1) x by simp
  ultimately show ?case
    unfolding in_order_Cons_iff by blast
qed

lemma in_order_map_trim: "in_order xs t \<Longrightarrow> in_order (map trim xs) t"
proof -
  have "list_all2 (\<lambda>y x. \<exists>u v. x = u @ y @ v) (map trim xs) xs"
    using trim_decomp by (auto simp: list_all2_conv_all_nth) blast
  then show "in_order xs t \<Longrightarrow> in_order (map trim xs) t"
    by (rule in_order_parts)
qed

lemma in_order_within: "in_order xs t \<Longrightarrow> in_order xs (a @ t @ b)"
  by (simp add: in_order_prepend in_order_append)

lemma in_order_split_loop:
  assumes "\<And>s r. sep s = Some r \<Longrightarrow> s = LF # r"
  shows "in_order (split_loop sep acc s) (acc @ s)"
proof (induction s arbitrary: acc)
  case Nil
  have "acc @ [] = [] @ acc @ [] \<and> in_order [] []"
    by simp
  then show ?case
    unfolding split_loop.simps in_order_Cons_iff by blast
next
  case (Cons c cs)
  show ?case
  proof (cases "sep (c # cs)")
    case None
    then show ?thesis
      using Cons.IH [of "acc @ [c]"]
      by (simp add: split_loop_Cons [OF assms] del: split_loop.simps(2))
  next
    case (Some r)
    have "in_order (split_loop sep [] cs) ([c] @ cs)"
      using Cons.IH [of "[]"] in_order_prepend [of _ "cs" "[c]"] by simp
    then have "acc @ c # cs = [] @ acc @ (c # cs) \<and> in_order (split_loop sep [] cs) (c # cs)"
      by simp
    then have "in_order (acc # split_loop sep [] cs) (acc @ c # cs)"
      unfolding in_order_Cons_iff by blast
    then show ?thesis
      using Some by (simp add: split_loop_Cons [OF assms] del: split_loop.simps(2))
  qed
qed

lemma in_order_split:
  assumes "\<And>s r. sep s = Some r \<Longrightarrow> s = LF # r"
  shows "in_order (split sep s) s"
proof (cases "s = []")
  case True
  have "sep [] = None"
    using assms by (cases "sep []") auto
  moreover have "in_order [[]] []"
    by (simp add: in_order_Cons_iff)
  ultimately show ?thesis using True by (simp add: split_def)
next
  case False
  then show ?thesis
    using in_order_split_loop [OF assms, of sep "[]" s] by (simp add: split_def)
qed

lemma join_lf_split_loop:
  assumes "\<And>s r. sep s = Some r \<Longrightarrow> s = LF # r"
  shows "join_lf (split_loop sep acc s) = acc @ s"
proof (induction s arbitrary: acc)
  case Nil
  show ?case by simp
next
  case (Cons c cs)
  show ?case
  proof (cases "sep (c # cs)")
    case None
    then show ?thesis
      using Cons.IH [of "acc @ [c]"]
      by (simp add: split_loop_Cons [OF assms] del: split_loop.simps(2))
  next
    case (Some r)
    then have c: "c = LF" using assms by blast
    obtain p ps where ps: "split_loop sep [] cs = p # ps"
      using split_loop_not_Nil [of sep "[]" cs] by (cases "split_loop sep [] cs") auto
    have "join_lf (acc # p # ps) = acc @ LF # join_lf (p # ps)"
      by simp
    then show ?thesis
      using Some c ps Cons.IH [of "[]"]
      by (simp add: split_loop_Cons [OF assms] del: split_loop.simps(2) join_lf.simps)
  qed
qed

text \<open>The text after the first line is what the later lines give when they are joined.\<close>

lemma join_lf_later_lines:
  "join_lf (tl (split_loop lf_sep acc s)) = drop 1 (dropWhile (\<lambda>c. c \<noteq> LF) s)"
proof (induction s arbitrary: acc)
  case Nil
  show ?case by simp
next
  case (Cons c cs)
  show ?case
  proof (cases "c = LF")
    case True
    then have "lf_sep (c # cs) = Some cs"
      by (simp add: lf_sep_Some)
    then have "split_loop lf_sep acc (c # cs) = acc # split_loop lf_sep [] cs"
      by (simp add: split_loop_Cons [OF lf_sep_lf] del: split_loop.simps(2))
    then show ?thesis
      using True join_lf_split_loop [OF lf_sep_lf, of lf_sep "[]" cs] by simp
  next
    case False
    then have "lf_sep (c # cs) = None"
      by (cases "lf_sep (c # cs)") (auto simp: lf_sep_Some)
    then have "split_loop lf_sep acc (c # cs) = split_loop lf_sep (acc @ [c]) cs"
      by (simp add: split_loop_Cons [OF lf_sep_lf] del: split_loop.simps(2))
    then show ?thesis
      using False Cons.IH [of "acc @ [c]"] by simp
  qed
qed

lemma block_rest_lines:
  assumes "split lf_sep block = l # ls"
  shows "trim (join_lf ls) = block_rest block"
proof (cases "block = []")
  case True
  then have "ls = []"
    using assms by (auto simp: split_def split: option.splits)
  then show ?thesis
    using True by (simp add: block_rest_def)
next
  case False
  then have "ls = tl (split_loop lf_sep [] block)"
    using assms by (simp add: split_def)
  then show ?thesis
    by (simp add: join_lf_later_lines block_rest_def)
qed

text \<open>The positions of the markers, read off from the left.\<close>

lemma marker_starts_Nil: "marker_starts [] = []"
  by (simp add: marker_starts_def)

lemma marker_starts_Cons:
  "marker_starts (c # cs) =
     (if c = LF \<and> starts_with_marker cs then [0] else []) @ map Suc (marker_starts cs)"
proof -
  have "[0..<length (c # cs)] = 0 # map Suc [0..<length cs]"
    by (simp add: upt_conv_Cons map_Suc_upt del: upt_Suc)
  then show ?thesis
    by (simp add: marker_starts_def filter_map comp_def del: upt_Suc)
qed

lemma raw_fragments_Nil: "raw_fragments [] n t = []"
  by (simp add: raw_fragments_def)

lemma raw_fragments_Cons:
  "raw_fragments (m # ms) n t =
     take (hd (ms @ [n]) - Suc m) (drop (Suc m) t) # raw_fragments ms n t"
  by (cases ms) (simp_all add: raw_fragments_def)

lemma hd_map_Suc: "hd (map Suc ms @ [Suc n]) = Suc (hd (ms @ [n]))"
  by (cases ms) simp_all

lemma raw_fragments_Suc:
  "raw_fragments (map Suc ms) (Suc n) (c # cs) = raw_fragments ms n cs"
proof (induction ms)
  case Nil
  show ?case by (simp add: raw_fragments_Nil)
next
  case (Cons m ms)
  then show ?case
    by (simp add: raw_fragments_Cons hd_map_Suc)
qed

text \<open>
  Splitting at the line feeds before the markers gives the text before the first such
  line feed and then the fragments, in the order of their positions.
\<close>

lemma split_loop_section:
  "split_loop section_sep acc s =
     (acc @ take (hd (marker_starts s @ [length s])) s)
       # raw_fragments (marker_starts s) (length s) s"
proof (induction s arbitrary: acc)
  case Nil
  show ?case by (simp add: marker_starts_Nil raw_fragments_Nil)
next
  case (Cons c cs)
  show ?case
  proof (cases "c = LF \<and> starts_with_marker cs")
    case True
    then have "section_sep (c # cs) = Some cs"
      by (simp add: section_sep_Some)
    then have "split_loop section_sep acc (c # cs) = acc # split_loop section_sep [] cs"
      by (simp add: split_loop_Cons [OF section_sep_lf] del: split_loop.simps(2))
    moreover have "marker_starts (c # cs) = 0 # map Suc (marker_starts cs)"
      using True by (simp add: marker_starts_Cons)
    ultimately show ?thesis
      using Cons.IH [of "[]"] by (simp add: raw_fragments_Cons raw_fragments_Suc hd_map_Suc)
  next
    case False
    then have "section_sep (c # cs) = None"
      by (cases "section_sep (c # cs)") (auto simp: section_sep_Some)
    then have "split_loop section_sep acc (c # cs) = split_loop section_sep (acc @ [c]) cs"
      by (simp add: split_loop_Cons [OF section_sep_lf] del: split_loop.simps(2))
    moreover have "marker_starts (c # cs) = map Suc (marker_starts cs)"
      using False by (simp add: marker_starts_Cons)
    ultimately show ?thesis
      using Cons.IH [of "acc @ [c]"] by (simp add: raw_fragments_Suc hd_map_Suc)
  qed
qed

text \<open>The subcards of the card of a block are the numbered items of the rest of the block.\<close>

lemma subcards_make_card:
  assumes "make_card block = Inr c"
  shows "subcards c = marker_fragments (block_rest block)"
proof -
  from make_card_Inr [OF assms]
  obtain l ls where lines: "split lf_sep block = l # ls"
    and r: "trim (join_lf ls) = [] \<and> body c = [] \<and> subcards c = [] \<or>
            (\<exists>p ps. trim (join_lf ls) \<noteq> [] \<and>
               split section_sep (trim (join_lf ls)) = p # ps \<and>
               body c = trim p \<and> subcards c = filter (\<lambda>p. p \<noteq> []) (map trim ps))"
    by blast
  have rest: "trim (join_lf ls) = block_rest block"
    using lines by (rule block_rest_lines)
  from r show ?thesis
  proof
    assume "trim (join_lf ls) = [] \<and> body c = [] \<and> subcards c = []"
    then show ?thesis
      using rest by (simp add: marker_fragments_def marker_starts_Nil raw_fragments_Nil)
  next
    assume "\<exists>p ps. trim (join_lf ls) \<noteq> [] \<and>
               split section_sep (trim (join_lf ls)) = p # ps \<and>
               body c = trim p \<and> subcards c = filter (\<lambda>p. p \<noteq> []) (map trim ps)"
    then obtain p ps where p: "block_rest block \<noteq> []"
      "split section_sep (block_rest block) = p # ps"
      "subcards c = filter (\<lambda>p. p \<noteq> []) (map trim ps)"
      unfolding rest by blast
    have "\<forall>q\<in>set ps. trim q \<noteq> []"
      using section_piece [of _ "block_rest block"] p(2) by simp
    then have "filter (\<lambda>p. p \<noteq> []) (map trim ps) = map trim ps"
      by (simp add: filter_id_conv)
    moreover have "ps = raw_fragments (marker_starts (block_rest block))
        (length (block_rest block)) (block_rest block)"
      using p(1,2) by (simp add: split_def split_loop_section)
    ultimately show ?thesis
      using p(3) by (simp add: marker_fragments_def)
  qed
qed

text \<open>The rest of a block is a part of the block.\<close>

lemma block_rest_part: "\<exists>u v. block = u @ block_rest block @ v"
proof -
  define d where "d = dropWhile (\<lambda>c. c \<noteq> LF) block"
  obtain a b where ab: "drop 1 d = a @ trim (drop 1 d) @ b"
    using trim_decomp by blast
  have "block = takeWhile (\<lambda>c. c \<noteq> LF) block @ take 1 d @ drop 1 d"
    by (simp add: d_def)
  then have "block = (takeWhile (\<lambda>c. c \<noteq> LF) block @ take 1 d @ a) @ block_rest block @ b"
    using ab by (simp add: block_rest_def d_def)
  then show ?thesis by (intro exI)
qed

lemma in_order_block_rest: "in_order blocks t \<Longrightarrow> in_order (map block_rest blocks) t"
proof -
  have "list_all2 (\<lambda>y x. \<exists>u v. x = u @ y @ v) (map block_rest blocks) blocks"
    using block_rest_part by (simp add: list_all2_conv_all_nth)
  then show "in_order blocks t \<Longrightarrow> in_order (map block_rest blocks) t"
    by (rule in_order_parts)
qed

text \<open>The segmenter makes the cards of the story blocks.\<close>

lemma splitIntoDigest_story_blocks: "splitIntoDigest md = digest_loop (story_blocks md) []"
  unfolding splitIntoDigest_def story_blocks_def Let_def
  by (cases "trim md = []") simp_all

text \<open>The story blocks lie in the text given to the segmenter, from left to right.\<close>

lemma in_order_story_blocks: "in_order (story_blocks md) md"
proof -
  define bs where "bs = filter (\<lambda>b. b \<noteq> []) (map trim (split story_sep (trim md)))"
  have "in_order (split story_sep (trim md)) (trim md)"
    using story_sep_lf by (rule in_order_split)
  then have 1: "in_order bs (trim md)"
    unfolding bs_def by (intro in_order_filter in_order_map_trim)
  have "trim md = [] @ trim md @ [] \<and> in_order [] []"
    by simp
  then have 2: "in_order [trim md] (trim md)"
    unfolding in_order_Cons_iff by (intro exI)
  have "story_blocks md = [] \<or> story_blocks md = bs \<or> story_blocks md = [trim md]"
    unfolding story_blocks_def bs_def Let_def by (cases "trim md = []") simp_all
  then have "in_order (story_blocks md) (trim md)"
    using 1 2 by auto
  moreover obtain u v where "md = u @ trim md @ v"
    using trim_decomp by blast
  ultimately show ?thesis
    using in_order_within [of "story_blocks md" "trim md" u v] by simp
qed

text \<open>
  C8: the subcards of a card are the numbered items of the card's own story block, taken
  after the first line of the block: there is one subcard for every line feed that has a
  numeric list marker right after it, it reaches from that marker to the next such line
  feed, and the subcards stand in the list in the order of these markers in the text,
  from left to right. The numbers of the markers play no part. The texts the subcards
  are taken from lie in the text given to the segmenter one after the other, in the
  order of the cards.
\<close>

theorem subcards_in_order:
  assumes "splitIntoDigest md = Inr cards"
  shows "list_all2 (\<lambda>block c. subcards c = marker_fragments (block_rest block))
           (story_blocks md) cards \<and>
         in_order (map block_rest (story_blocks md)) md"
proof -
  obtain cs where cs: "digest_loop (story_blocks md) [] = Inr ([] @ cs)"
    "list_all2 (\<lambda>b c. make_card b = Inr c) (story_blocks md) cs"
    using digest_loop_Inr by blast
  have "cs = cards"
    using cs(1) assms by (simp add: splitIntoDigest_story_blocks)
  then have "list_all2 (\<lambda>b c. make_card b = Inr c) (story_blocks md) cards"
    using cs(2) by simp
  then have "list_all2 (\<lambda>block c. subcards c = marker_fragments (block_rest block))
      (story_blocks md) cards"
    by (rule list_all2_mono) (rule subcards_make_card)
  moreover have "in_order (map block_rest (story_blocks md)) md"
    using in_order_story_blocks by (rule in_order_block_rest)
  ultimately show ?thesis
    by simp
qed

text \<open>
  The theorem at a text of two story blocks. In the first block the item \<open>1. a\<close> is the
  body, since no line feed of the rest of the block stands before it. In the second block
  the marker \<open>2.\<close> comes before the marker \<open>1.\<close>, and so do the subcards; the \<open>1. d\<close> in the
  middle of a line starts no subcard.
\<close>

theorem subcards_in_order_witness:
  "splitIntoDigest (js ''# A\<newline>1. a\<newline>2. b\<newline># B\<newline>see 1. d\<newline>2. c\<newline>1. d'') =
     Inr [\<lparr>title = js ''A'', body = js ''1. a'', subcards = [js ''2. b'']\<rparr>,
          \<lparr>title = js ''B'', body = js ''see 1. d'', subcards = [js ''2. c'', js ''1. d'']\<rparr>] \<and>
   story_blocks (js ''# A\<newline>1. a\<newline>2. b\<newline># B\<newline>see 1. d\<newline>2. c\<newline>1. d'') =
     [js ''# A\<newline>1. a\<newline>2. b'', js ''# B\<newline>see 1. d\<newline>2. c\<newline>1. d''] \<and>
   block_rest (js ''# A\<newline>1. a\<newline>2. b'') = js ''1. a\<newline>2. b'' \<and>
   block_rest (js ''# B\<newline>see 1. d\<newline>2. c\<newline>1. d'') = js ''see 1. d\<newline>2. c\<newline>1. d'' \<and>
   marker_starts (js ''1. a\<newline>2. b'') = [4] \<and>
   marker_starts (js ''see 1. d\<newline>2. c\<newline>1. d'') = [8, 13] \<and>
   marker_fragments (js ''1. a\<newline>2. b'') = [js ''2. b''] \<and>
   marker_fragments (js ''see 1. d\<newline>2. c\<newline>1. d'') = [js ''2. c'', js ''1. d''] \<and>
   in_order [js ''1. a\<newline>2. b'', js ''see 1. d\<newline>2. c\<newline>1. d'']
     (js ''# A\<newline>1. a\<newline>2. b\<newline># B\<newline>see 1. d\<newline>2. c\<newline>1. d'')"
proof -
  define md where "md = js ''# A\<newline>1. a\<newline>2. b\<newline># B\<newline>see 1. d\<newline>2. c\<newline>1. d''"
  define c1 where "c1 = \<lparr>title = js ''A'', body = js ''1. a'', subcards = [js ''2. b'']\<rparr>"
  define c2 where
    "c2 = \<lparr>title = js ''B'', body = js ''see 1. d'', subcards = [js ''2. c'', js ''1. d'']\<rparr>"
  have h: "splitIntoDigest md = Inr [c1, c2]"
    unfolding md_def c1_def c2_def by code_simp
  have b: "story_blocks md = [js ''# A\<newline>1. a\<newline>2. b'', js ''# B\<newline>see 1. d\<newline>2. c\<newline>1. d'']"
    unfolding md_def by code_simp
  have r: "block_rest (js ''# A\<newline>1. a\<newline>2. b'') = js ''1. a\<newline>2. b''"
    "block_rest (js ''# B\<newline>see 1. d\<newline>2. c\<newline>1. d'') = js ''see 1. d\<newline>2. c\<newline>1. d''"
    by code_simp+
  have m: "marker_starts (js ''1. a\<newline>2. b'') = [4]"
    "marker_starts (js ''see 1. d\<newline>2. c\<newline>1. d'') = [8, 13]"
    by code_simp+
  have s: "subcards c1 = [js ''2. b'']" "subcards c2 = [js ''2. c'', js ''1. d'']"
    by (simp_all add: c1_def c2_def)
  have t: "list_all2 (\<lambda>block c. subcards c = marker_fragments (block_rest block))
        [js ''# A\<newline>1. a\<newline>2. b'', js ''# B\<newline>see 1. d\<newline>2. c\<newline>1. d''] [c1, c2]"
    "in_order [js ''1. a\<newline>2. b'', js ''see 1. d\<newline>2. c\<newline>1. d''] md"
    using subcards_in_order [OF h] unfolding b by (simp_all add: r)
  have f: "marker_fragments (js ''1. a\<newline>2. b'') = [js ''2. b'']"
    "marker_fragments (js ''see 1. d\<newline>2. c\<newline>1. d'') = [js ''2. c'', js ''1. d'']"
    using t(1) s by (simp_all add: r)
  show ?thesis
    using h b r m f t(2) unfolding md_def c1_def c2_def by (intro conjI)
qed

section \<open>The lines of a text\<close>

text \<open>
  A line of a text is a part without line feed that has the start of the text or a line
  feed before it, and the end of the text or a line feed after it.
\<close>

lemma lf_sep_Cons: "lf_sep (c # cs) = (if c = LF then Some cs else None)"
  by (simp add: lf_sep_def lit_def)

lemma split_loop_lf_sep:
  "split_loop lf_sep acc (c # cs) =
     (if c = LF then acc # split_loop lf_sep [] cs else split_loop lf_sep (acc @ [c]) cs)"
  by (simp add: lf_sep_Cons)

lemma split_loop_lines:
  "l \<in> set (split_loop lf_sep acc s) \<Longrightarrow>
   (\<exists>l1 b. l = acc @ l1 \<and> s = l1 @ b \<and> LF \<notin> set l1 \<and> (b = [] \<or> hd b = LF)) \<or>
   (\<exists>a b. s = a @ l @ b \<and> a \<noteq> [] \<and> last a = LF \<and> LF \<notin> set l \<and> (b = [] \<or> hd b = LF))"
proof (induction s arbitrary: acc)
  case Nil
  then have "l = acc @ [] \<and> ([] :: jstring) = [] @ [] \<and> LF \<notin> set [] \<and>
      (([] :: jstring) = [] \<or> hd [] = LF)"
    by simp
  then show ?case by (intro disjI1 exI)
next
  case (Cons c cs)
  show ?case
  proof (cases "c = LF")
    case True
    then consider "l = acc" | "l \<in> set (split_loop lf_sep [] cs)"
      using Cons.prems by (auto simp: split_loop_lf_sep simp del: split_loop.simps(2))
    then show ?thesis
    proof cases
      case 1
      then have "l = acc @ [] \<and> c # cs = [] @ (c # cs) \<and> LF \<notin> set [] \<and>
          (c # cs = [] \<or> hd (c # cs) = LF)"
        using True by simp
      then show ?thesis by (intro disjI1 exI)
    next
      case 2
      from Cons.IH [OF this]
      show ?thesis
      proof
        assume "\<exists>l1 b. l = [] @ l1 \<and> cs = l1 @ b \<and> LF \<notin> set l1 \<and> (b = [] \<or> hd b = LF)"
        then obtain b where "cs = l @ b" "LF \<notin> set l" "b = [] \<or> hd b = LF"
          by auto
        then have "c # cs = [LF] @ l @ b \<and> [LF] \<noteq> [] \<and> last [LF] = LF \<and> LF \<notin> set l \<and>
            (b = [] \<or> hd b = LF)"
          using True by simp
        then show ?thesis by (intro disjI2 exI)
      next
        assume "\<exists>a b. cs = a @ l @ b \<and> a \<noteq> [] \<and> last a = LF \<and> LF \<notin> set l \<and>
            (b = [] \<or> hd b = LF)"
        then obtain a b where "cs = a @ l @ b" "a \<noteq> []" "last a = LF" "LF \<notin> set l"
          "b = [] \<or> hd b = LF"
          by blast
        then have "c # cs = (c # a) @ l @ b \<and> c # a \<noteq> [] \<and> last (c # a) = LF \<and>
            LF \<notin> set l \<and> (b = [] \<or> hd b = LF)"
          by simp
        then show ?thesis by (intro disjI2 exI)
      qed
    qed
  next
    case False
    then have "l \<in> set (split_loop lf_sep (acc @ [c]) cs)"
      using Cons.prems by (simp add: split_loop_lf_sep del: split_loop.simps(2))
    from Cons.IH [OF this]
    show ?thesis
    proof
      assume "\<exists>l1 b. l = (acc @ [c]) @ l1 \<and> cs = l1 @ b \<and> LF \<notin> set l1 \<and>
          (b = [] \<or> hd b = LF)"
      then obtain l1 b where "l = (acc @ [c]) @ l1" "cs = l1 @ b" "LF \<notin> set l1"
        "b = [] \<or> hd b = LF"
        by blast
      then have "l = acc @ (c # l1) \<and> c # cs = (c # l1) @ b \<and> LF \<notin> set (c # l1) \<and>
          (b = [] \<or> hd b = LF)"
        using False by simp
      then show ?thesis by (intro disjI1 exI)
    next
      assume "\<exists>a b. cs = a @ l @ b \<and> a \<noteq> [] \<and> last a = LF \<and> LF \<notin> set l \<and>
          (b = [] \<or> hd b = LF)"
      then obtain a b where "cs = a @ l @ b" "a \<noteq> []" "last a = LF" "LF \<notin> set l"
        "b = [] \<or> hd b = LF"
        by blast
      then have "c # cs = (c # a) @ l @ b \<and> c # a \<noteq> [] \<and> last (c # a) = LF \<and>
          LF \<notin> set l \<and> (b = [] \<or> hd b = LF)"
        by simp
      then show ?thesis by (intro disjI2 exI)
    qed
  qed
qed

lemma split_loop_first_line:
  "LF \<notin> set l1 \<Longrightarrow> b = [] \<or> hd b = LF \<Longrightarrow> acc @ l1 \<in> set (split_loop lf_sep acc (l1 @ b))"
proof (induction l1 arbitrary: acc)
  case Nil
  then show ?case
    by (cases b) (auto simp: split_loop_lf_sep simp del: split_loop.simps(2))
next
  case (Cons c l1)
  have "LF \<notin> set l1" "c \<noteq> LF"
    using Cons.prems(1) by auto
  then have "(acc @ [c]) @ l1 \<in> set (split_loop lf_sep (acc @ [c]) (l1 @ b))"
    using Cons.prems(2) by (intro Cons.IH)
  then show ?case
    using \<open>c \<noteq> LF\<close> by (simp add: split_loop_lf_sep del: split_loop.simps(2))
qed

lemma split_loop_later_line:
  "a \<noteq> [] \<Longrightarrow> last a = LF \<Longrightarrow> LF \<notin> set l \<Longrightarrow> b = [] \<or> hd b = LF \<Longrightarrow>
   l \<in> set (split_loop lf_sep acc (a @ l @ b))"
proof (induction a arbitrary: acc)
  case Nil
  then show ?case by simp
next
  case (Cons c a)
  show ?case
  proof (cases "a = []")
    case True
    then have "c = LF" using Cons.prems(2) by simp
    moreover have "[] @ l \<in> set (split_loop lf_sep [] (l @ b))"
      using Cons.prems(3,4) by (rule split_loop_first_line)
    ultimately show ?thesis
      using True by (simp add: split_loop_lf_sep del: split_loop.simps(2))
  next
    case False
    then have "last a = LF" using Cons.prems(2) by simp
    then have "l \<in> set (split_loop lf_sep acc' (a @ l @ b))" for acc'
      using False Cons.prems(3,4) by (intro Cons.IH)
    then show ?thesis
      by (simp add: split_loop_lf_sep del: split_loop.simps(2))
  qed
qed

lemma lines_of_Nil: "lines_of [] = [[]]"
  by (simp add: lines_of_def split_def lf_sep_def lit_def)

lemma line_decomp:
  assumes "l \<in> set (lines_of t)"
  shows "\<exists>a b. t = a @ l @ b \<and> LF \<notin> set l \<and> (a = [] \<or> last a = LF) \<and> (b = [] \<or> hd b = LF)"
proof (cases "t = []")
  case True
  then have "t = [] @ l @ [] \<and> LF \<notin> set l \<and> (([] :: jstring) = [] \<or> last [] = LF) \<and>
      (([] :: jstring) = [] \<or> hd [] = LF)"
    using assms by (simp add: lines_of_Nil)
  then show ?thesis by (intro exI)
next
  case False
  then have "l \<in> set (split_loop lf_sep [] t)"
    using assms by (simp add: lines_of_def split_def)
  from split_loop_lines [OF this]
  show ?thesis
  proof
    assume "\<exists>l1 b. l = [] @ l1 \<and> t = l1 @ b \<and> LF \<notin> set l1 \<and> (b = [] \<or> hd b = LF)"
    then obtain b where "t = [] @ l @ b \<and> LF \<notin> set l \<and>
        (([] :: jstring) = [] \<or> last [] = LF) \<and> (b = [] \<or> hd b = LF)"
      by auto
    then show ?thesis by (intro exI)
  next
    assume "\<exists>a b. t = a @ l @ b \<and> a \<noteq> [] \<and> last a = LF \<and> LF \<notin> set l \<and> (b = [] \<or> hd b = LF)"
    then obtain a b where "t = a @ l @ b \<and> LF \<notin> set l \<and> (a = [] \<or> last a = LF) \<and>
        (b = [] \<or> hd b = LF)"
      by auto
    then show ?thesis by (intro exI)
  qed
qed

lemma line_member:
  assumes "t = a @ l @ b" "LF \<notin> set l" "a = [] \<or> last a = LF" "b = [] \<or> hd b = LF"
  shows "l \<in> set (lines_of t)"
proof (cases "t = []")
  case True
  then show ?thesis using assms(1) by (simp add: lines_of_Nil)
next
  case False
  then have eq: "lines_of t = split_loop lf_sep [] t"
    by (simp add: lines_of_def split_def)
  show ?thesis
  proof (cases "a = []")
    case True
    have "[] @ l \<in> set (split_loop lf_sep [] (l @ b))"
      using assms(2,4) by (rule split_loop_first_line)
    then show ?thesis
      unfolding eq using True assms(1) by simp
  next
    case a: False
    then have "last a = LF" using assms(3) by simp
    then have "l \<in> set (split_loop lf_sep [] (a @ l @ b))"
      using a assms(2,4) by (intro split_loop_later_line)
    then show ?thesis
      unfolding eq using assms(1) by simp
  qed
qed

section \<open>A line feed right before a hash\<close>

lemma adj_Cons: "adj u v (x # r) = ((r \<noteq> [] \<and> x = u \<and> hd r = v) \<or> adj u v r)"
  by (cases r) auto

lemma adj_append:
  "adj u v (xs @ ys) =
     (adj u v xs \<or> adj u v ys \<or> (xs \<noteq> [] \<and> ys \<noteq> [] \<and> last xs = u \<and> hd ys = v))"
proof (induction xs)
  case Nil
  show ?case by simp
next
  case (Cons x xs)
  show ?case
  proof (cases xs)
    case Nil
    then show ?thesis by (auto simp: adj_Cons)
  next
    case (Cons y ys')
    then show ?thesis
      using Cons.IH by (auto simp: adj_Cons)
  qed
qed

lemma adj_no_first: "u \<notin> set xs \<Longrightarrow> \<not> adj u v xs"
  by (induction xs) (auto simp: adj_Cons)

lemma adj_no_second: "v \<notin> set xs \<Longrightarrow> \<not> adj u v xs"
  by (induction xs) (auto simp: adj_Cons)

lemma region_no_adj:
  assumes "g = [] \<or> g = [LF]" "mid \<noteq> []" "LF \<notin> set mid" "hd mid \<noteq> HASH" "HASH \<notin> set w"
  shows "\<not> adj LF HASH (g @ mid @ w)"
proof -
  have "\<not> adj LF HASH g"
    using assms(1) by auto
  moreover have "\<not> adj LF HASH mid"
    using assms(3) by (rule adj_no_first)
  moreover have "\<not> adj LF HASH w"
    using assms(5) by (rule adj_no_second)
  moreover have "last mid \<noteq> LF"
    using assms(2,3) last_in_set by metis
  moreover have "w \<noteq> [] \<Longrightarrow> hd w \<noteq> HASH"
    using assms(5) hd_in_set by metis
  ultimately show ?thesis
    using assms(2,4) by (auto simp: adj_append)
qed

section \<open>The two rules of the normalizer rewrite the start of a line\<close>

lemma is_space_not_HASH: "is_space c \<Longrightarrow> c \<noteq> HASH"
  using is_space_cases [of c] by auto

lemma bold_rule_line:
  assumes "bold_rule at0 s = Some (out, rest)"
  shows "\<exists>g mid w out'. s = g @ mid @ w @ rest \<and> out = g @ out' \<and>
           (g = [] \<and> at0 \<or> g = [LF]) \<and> mid \<noteq> [] \<and> LF \<notin> set mid \<and> hd mid \<noteq> HASH \<and>
           HASH \<notin> set w \<and> out' \<noteq> [] \<and> last out' = LF"
proof -
  from bold_rule_Some [OF assms]
  obtain g x ws where *: "s = g @ [STAR, STAR] @ x @ [STAR, STAR, COLON] @ ws @ rest"
    "out = g @ js ''### '' @ x @ [LF, LF]" "g = [] \<and> at0 \<or> g = [LF]"
    "\<forall>c\<in>set x. bold_char c" "\<forall>c\<in>set ws. is_space c"
    by blast
  define mid where "mid = [STAR, STAR] @ x @ [STAR, STAR, COLON]"
  have "LF \<notin> set x"
    using *(4) by (auto simp: bold_char_def)
  then have "LF \<notin> set mid" "mid \<noteq> []" "hd mid \<noteq> HASH"
    by (simp_all add: mid_def)
  moreover have "HASH \<notin> set ws"
    using *(5) is_space_not_HASH by blast
  moreover have "s = g @ mid @ ws @ rest" "out = g @ (js ''### '' @ x @ [LF, LF])"
    using *(1,2) by (simp_all add: mid_def)
  moreover have "js ''### '' @ x @ [LF, LF] \<noteq> []" "last (js ''### '' @ x @ [LF, LF]) = LF"
    by simp_all
  ultimately show ?thesis
    using *(3) by blast
qed

lemma title_char_not_LF: "title_char c \<Longrightarrow> c \<noteq> LF"
  by (auto simp: title_char_def)

lemma is_upper_not_LF_HASH: "is_upper c \<Longrightarrow> c \<noteq> LF \<and> c \<noteq> HASH"
  by (auto simp: is_upper_def)

lemma title_rule_line:
  assumes "title_rule at0 s = Some (out, rest)"
  shows "\<exists>g mid w out'. s = g @ mid @ w @ rest \<and> out = g @ out' \<and>
           (g = [] \<and> at0 \<or> g = [LF]) \<and> mid \<noteq> [] \<and> LF \<notin> set mid \<and> hd mid \<noteq> HASH \<and>
           HASH \<notin> set w \<and> out' \<noteq> [] \<and> last out' = LF"
proof -
  from title_rule_Some [OF assms]
  obtain g u x ws where *: "s = g @ (u # x) @ [COLON] @ ws @ [LF] @ rest"
    "out = g @ js ''### '' @ (u # x) @ [LF]" "g = [] \<and> at0 \<or> g = [LF]" "is_upper u"
    "\<forall>c\<in>set x. title_char c" "\<forall>c\<in>set ws. is_space c"
    by blast
  define mid where "mid = (u # x) @ [COLON]"
  have "LF \<notin> set x"
    using *(5) title_char_not_LF by blast
  then have "LF \<notin> set mid" "mid \<noteq> []" "hd mid \<noteq> HASH"
    using is_upper_not_LF_HASH [OF *(4)] by (simp_all add: mid_def)
  moreover have "HASH \<notin> set (ws @ [LF])"
    using *(6) is_space_not_HASH by auto
  moreover have "s = g @ mid @ (ws @ [LF]) @ rest" "out = g @ (js ''### '' @ (u # x) @ [LF])"
    using *(1,2) by (simp_all add: mid_def)
  moreover have "js ''### '' @ (u # x) @ [LF] \<noteq> []" "last (js ''### '' @ (u # x) @ [LF]) = LF"
    by simp_all
  ultimately show ?thesis
    using *(3) by blast
qed

section \<open>A global replacement keeps the lines that start with a hash\<close>

lemma replace_all_None:
  "m at0 (c # cs) = None \<Longrightarrow> replace_all m at0 (c # cs) = c # replace_all m False cs"
  by (simp add: replace_all.simps [of m at0 "c # cs"])

lemma replace_all_Some:
  "m at0 s = Some (out, rest) \<Longrightarrow> length rest < length s \<Longrightarrow>
   replace_all m at0 s = out @ replace_all m False rest"
  by (simp add: replace_all.simps [of m at0 s])

lemma line_ruleD:
  assumes "line_rule m" "m at0 s = Some (out, rest)"
  shows "\<exists>g mid w out'. s = g @ mid @ w @ rest \<and> out = g @ out' \<and>
           (g = [] \<and> at0 \<or> g = [LF]) \<and> mid \<noteq> [] \<and> LF \<notin> set mid \<and> hd mid \<noteq> HASH \<and>
           HASH \<notin> set w \<and> out' \<noteq> [] \<and> last out' = LF"
  using assms unfolding line_rule_def by blast

lemma line_rule_bold: "line_rule bold_rule"
  unfolding line_rule_def using bold_rule_line by blast

lemma line_rule_title: "line_rule title_rule"
  unfolding line_rule_def using title_rule_line by blast

lemma line_rule_start:
  assumes R: "line_rule m"
    and "m at0 (c # cs) = Some (out, rest)"
  shows "c = LF \<and> hd out = LF \<or> at0 \<and> c \<noteq> HASH"
proof -
  from line_ruleD [OF R assms(2)]
  obtain g mid w out' where *: "c # cs = g @ mid @ w @ rest" "out = g @ out'"
    "g = [] \<and> at0 \<or> g = [LF]" "mid \<noteq> []" "hd mid \<noteq> HASH"
    by blast
  from *(3) show ?thesis
  proof
    assume "g = [] \<and> at0"
    then have "c = hd mid" "at0"
      using *(1,4) by (cases mid; simp)+
    then show ?thesis using *(5) by simp
  next
    assume "g = [LF]"
    then show ?thesis using *(1,2) by simp
  qed
qed

lemma line_rule_Nil:
  assumes R: "line_rule m"
  shows "m at0 [] = None"
proof (cases "m at0 []")
  case (Some p)
  obtain out rest where "p = (out, rest)" by (cases p)
  from line_ruleD [OF R Some [unfolded this]] show ?thesis by auto
qed simp

lemma line_rule_shorter:
  assumes R: "line_rule m"
    and "m at0 s = Some (out, rest)"
  shows "length rest < length s"
proof -
  from line_ruleD [OF R assms(2)]
  obtain g mid w where "s = g @ mid @ w @ rest" "mid \<noteq> []"
    by blast
  then show ?thesis by (cases mid) auto
qed

text \<open>No match starts inside a line, nor at a hash.\<close>

lemma replace_all_copy:
  assumes R: "line_rule m"
  shows "LF \<notin> set l \<Longrightarrow> replace_all m False (l @ b) = l @ replace_all m False b"
proof (induction l)
  case Nil
  show ?case by simp
next
  case (Cons c l)
  have "m False (c # l @ b) = None"
  proof (cases "m False (c # l @ b)")
    case (Some p)
    obtain out rest where "p = (out, rest)" by (cases p)
    from line_rule_start [OF R Some [unfolded this]]
    show ?thesis using Cons.prems by simp
  qed simp
  then show ?case
    using Cons by (simp add: replace_all_None)
qed

lemma replace_all_copy_hash:
  assumes R: "line_rule m"
    and "l \<noteq> []" "hd l = HASH" "LF \<notin> set l"
  shows "replace_all m at0 (l @ b) = l @ replace_all m False b"
proof -
  obtain l' where l: "l = HASH # l'"
    using assms(2,3) by (cases l) auto
  have "m at0 (HASH # l' @ b) = None"
  proof (cases "m at0 (HASH # l' @ b)")
    case (Some p)
    obtain out rest where "p = (out, rest)" by (cases p)
    from line_rule_start [OF R Some [unfolded this]]
    show ?thesis by simp
  qed simp
  moreover have "replace_all m False (l' @ b) = l' @ replace_all m False b"
    using assms(4) l by (intro replace_all_copy [OF R]) simp
  ultimately show ?thesis
    using l by (simp add: replace_all_None)
qed

lemma replace_all_line_end:
  assumes R: "line_rule m"
    and "b = [] \<or> hd b = LF"
  shows "replace_all m False b = [] \<or> hd (replace_all m False b) = LF"
proof (cases b)
  case Nil
  then show ?thesis
    using line_rule_Nil [OF R, of False] by (simp add: replace_all.simps [of m False "[]"])
next
  case (Cons c cs)
  then have c: "c = LF" using assms(2) by simp
  show ?thesis
  proof (cases "m False (c # cs)")
    case None
    then show ?thesis using Cons c by (simp add: replace_all_None)
  next
    case (Some p)
    obtain out rest where p: "p = (out, rest)" by (cases p)
    have "hd out = LF"
      using line_rule_start [OF R Some [unfolded p]] by simp
    moreover have "out \<noteq> []"
      using line_ruleD [OF R Some [unfolded p]] by auto
    moreover have "replace_all m False (c # cs) = out @ replace_all m False rest"
      using Some p line_rule_shorter [OF R Some [unfolded p]] by (intro replace_all_Some) simp_all
    ultimately show ?thesis using Cons by simp
  qed
qed

lemma replace_all_keeps_line:
  assumes R: "line_rule m"
    and l: "l \<noteq> []" "hd l = HASH" "LF \<notin> set l"
    and b: "b = [] \<or> hd b = LF"
  shows "a = [] \<or> last a = LF \<Longrightarrow>
         \<exists>a' b'. replace_all m at0 (a @ l @ b) = a' @ l @ b' \<and>
           (a = [] \<and> a' = [] \<or> a' \<noteq> [] \<and> last a' = LF) \<and> (b' = [] \<or> hd b' = LF)"
proof (induction "length a" arbitrary: a at0 rule: less_induct)
  case less
  show ?case
  proof (cases a)
    case Nil
    have "replace_all m at0 (l @ b) = [] @ l @ replace_all m False b"
      using replace_all_copy_hash [OF R l] by simp
    moreover have "replace_all m False b = [] \<or> hd (replace_all m False b) = LF"
      using replace_all_line_end [OF R b] .
    ultimately have "replace_all m at0 (a @ l @ b) = [] @ l @ replace_all m False b \<and>
        (a = [] \<and> ([] :: jstring) = [] \<or> ([] :: jstring) \<noteq> [] \<and> last [] = LF) \<and>
        (replace_all m False b = [] \<or> hd (replace_all m False b) = LF)"
      using Nil by simp
    then show ?thesis by (intro exI)
  next
    case (Cons c a1)
    have last_a: "last a = LF"
      using less.prems Cons by simp
    show ?thesis
    proof (cases "m at0 (a @ l @ b)")
      case None
      have a1: "a1 = [] \<or> last a1 = LF"
        using last_a Cons by (cases a1) auto
      have "length a1 < length a"
        using Cons by simp
      from less.hyps [OF this a1, of False]
      obtain a'' b' where *: "replace_all m False (a1 @ l @ b) = a'' @ l @ b'"
        "a1 = [] \<and> a'' = [] \<or> a'' \<noteq> [] \<and> last a'' = LF" "b' = [] \<or> hd b' = LF"
        by blast
      have "replace_all m at0 (a @ l @ b) = (c # a'') @ l @ b'"
        using None Cons * by (simp add: replace_all_None)
      moreover have "c # a'' \<noteq> [] \<and> last (c # a'') = LF"
        using *(2) last_a Cons by auto
      ultimately have "replace_all m at0 (a @ l @ b) = (c # a'') @ l @ b' \<and>
          (a = [] \<and> c # a'' = [] \<or> c # a'' \<noteq> [] \<and> last (c # a'') = LF) \<and>
          (b' = [] \<or> hd b' = LF)"
        using *(3) by simp
      then show ?thesis by (intro exI)
    next
      case (Some p)
      obtain out rest where p: "p = (out, rest)" by (cases p)
      note match = Some [unfolded p]
      from line_ruleD [OF R match]
      obtain g mid w out' where r: "a @ l @ b = g @ mid @ w @ rest" "out = g @ out'"
        "g = [] \<and> at0 \<or> g = [LF]" "mid \<noteq> []" "LF \<notin> set mid" "hd mid \<noteq> HASH"
        "HASH \<notin> set w" "out' \<noteq> []" "last out' = LF"
        by blast
      have no_adj: "\<not> adj LF HASH (g @ mid @ w)"
        using r(3,4,5,6,7) by (intro region_no_adj) auto
      define region where "region = g @ mid @ w"
      have region: "region \<noteq> []" "\<not> adj LF HASH region"
        using no_adj r(4) by (simp_all add: region_def)
      define lb where "lb = l @ b"
      have "a @ lb = region @ rest"
        using r(1) by (simp add: region_def lb_def)
      then obtain us where "a = region @ us \<and> us @ lb = rest \<or> a @ us = region \<and> lb = us @ rest"
        unfolding append_eq_append_conv2 by blast
      then obtain a2 where a2: "a = region @ a2" "rest = a2 @ l @ b"
      proof
        assume "a = region @ us \<and> us @ lb = rest"
        then show ?thesis using that by (simp add: lb_def)
      next
        assume us: "a @ us = region \<and> lb = us @ rest"
        show ?thesis
        proof (cases "us = []")
          case True
          then show ?thesis using us that [of "[]"] by (simp add: lb_def)
        next
          case False
          have "hd lb = HASH"
            using l(1,2) by (simp add: lb_def)
          then have "hd us = HASH"
            using us False by simp
          moreover have "a \<noteq> []"
            using Cons by simp
          ultimately have "adj LF HASH (a @ us)"
            using False last_a unfolding adj_append by blast
          then show ?thesis using region(2) us by simp
        qed
      qed
      have shorter: "length a2 < length a"
        using a2(1) region(1) by (cases region) auto
      have "a2 = [] \<or> last a2 = LF"
        using last_a a2(1) by (cases "a2 = []") auto
      from less.hyps [OF shorter this, of False]
      obtain a'' b' where *: "replace_all m False (a2 @ l @ b) = a'' @ l @ b'"
        "a2 = [] \<and> a'' = [] \<or> a'' \<noteq> [] \<and> last a'' = LF" "b' = [] \<or> hd b' = LF"
        by blast
      have "replace_all m at0 (a @ l @ b) = out @ replace_all m False rest"
        using match line_rule_shorter [OF R match] by (rule replace_all_Some)
      then have "replace_all m at0 (a @ l @ b) = (out @ a'') @ l @ b'"
        using a2(2) *(1) by simp
      moreover have "out @ a'' \<noteq> [] \<and> last (out @ a'') = LF"
        using *(2) r(2,8,9) by auto
      ultimately have "replace_all m at0 (a @ l @ b) = (out @ a'') @ l @ b' \<and>
          (a = [] \<and> out @ a'' = [] \<or> out @ a'' \<noteq> [] \<and> last (out @ a'') = LF) \<and>
          (b' = [] \<or> hd b' = LF)"
        using *(3) by simp
      then show ?thesis by (intro exI)
    qed
  qed
qed

section \<open>Normalizing again\<close>

lemma not_is_space_HASH: "\<not> is_space HASH"
  by (simp add: is_space_def)

text \<open>
  Trimming keeps a line that starts with a hash. When nothing but whitespace follows the
  line, the line loses the whitespace at its end; otherwise it stays as it is.
\<close>

lemma trim_end_hash:
  assumes "l \<noteq> []" "hd l = HASH"
  shows "trim_end l \<noteq> [] \<and> hd (trim_end l) = HASH \<and> set (trim_end l) \<subseteq> set l"
proof -
  have "HASH \<in> set (rev l)"
    using assms by (cases l) auto
  then have "\<not> (\<forall>c\<in>set (rev l). is_space c)"
    using not_is_space_HASH by auto
  then have 1: "trim_end l \<noteq> []"
    by (simp add: trim_end_def dropWhile_eq_Nil_conv)
  have 2: "l = trim_end l @ rev (takeWhile is_space (rev l))"
    unfolding trim_end_def by (metis rev_append rev_rev_ident takeWhile_dropWhile_id)
  then have "hd l = hd (trim_end l)"
    using 1 by (metis hd_append2)
  moreover have "set (trim_end l) \<subseteq> set l"
    using 2 by (metis set_append Un_upper1)
  ultimately show ?thesis
    using 1 assms(2) by simp
qed

lemma trim_keeps_line:
  assumes l: "l \<noteq> []" "hd l = HASH"
    and a: "a = [] \<or> last a = LF" and b: "b = [] \<or> hd b = LF"
  shows "\<exists>a' b'. trim (a @ l @ b) =
             a' @ (if list_all is_space b then trim_end l else l) @ b' \<and>
           (a' = [] \<or> last a' = LF) \<and> (b' = [] \<or> hd b' = LF)"
proof -
  define a1 where "a1 = dropWhile is_space a"
  have hash: "HASH \<in> set l" "\<not> is_space (hd l)"
    using l not_is_space_HASH by (cases l; simp)+
  have "dropWhile is_space (l @ b) = l @ b"
    using l hash(2) by (cases l) auto
  then have front: "dropWhile is_space (a @ l @ b) = a1 @ l @ b"
    by (simp add: dropWhile_append a1_def)
  have "a = takeWhile is_space a @ a1"
    by (simp add: a1_def)
  then have "a1 \<noteq> [] \<longrightarrow> last a1 = last a \<and> a \<noteq> []"
    by (metis last_appendR append_is_Nil_conv)
  then have a1: "a1 = [] \<or> last a1 = LF"
    using a by (cases "a1 = []") auto
  have t: "trim (a @ l @ b) = rev (dropWhile is_space (rev b @ rev l @ rev a1))"
    by (simp add: trim_def front)
  have drop_l: "dropWhile is_space (rev l @ rev a1) = dropWhile is_space (rev l) @ rev a1"
    using hash(1) not_is_space_HASH by (intro dropWhile_append1 [of HASH]) auto
  show ?thesis
  proof (cases "list_all is_space b")
    case True
    then have "\<forall>c\<in>set (rev b). is_space c"
      by (simp add: list_all_iff)
    then have "dropWhile is_space (rev b @ rev l @ rev a1) = dropWhile is_space (rev l @ rev a1)"
      by (intro dropWhile_append2) simp
    then have "trim (a @ l @ b) = a1 @ trim_end l @ []"
      using t drop_l by (simp add: trim_end_def)
    then have "trim (a @ l @ b) = a1 @ (if list_all is_space b then trim_end l else l) @ [] \<and>
        (a1 = [] \<or> last a1 = LF) \<and> (([] :: jstring) = [] \<or> hd [] = LF)"
      using True a1 by simp
    then show ?thesis by (intro exI)
  next
    case False
    define b' where "b' = rev (dropWhile is_space (rev b))"
    obtain c where c: "c \<in> set (rev b)" "\<not> is_space c"
      using False by (auto simp: list_all_iff)
    have "dropWhile is_space (rev b @ rev l @ rev a1) =
        dropWhile is_space (rev b) @ rev l @ rev a1"
      using c by (rule dropWhile_append1)
    then have 1: "trim (a @ l @ b) = a1 @ l @ b'"
      using t by (simp add: b'_def)
    have "b = b' @ rev (takeWhile is_space (rev b))"
      unfolding b'_def by (metis rev_append rev_rev_ident takeWhile_dropWhile_id)
    moreover have "b' \<noteq> []"
      using c by (auto simp: b'_def dropWhile_eq_Nil_conv)
    ultimately have "hd b' = hd b" "b \<noteq> []"
      by (metis hd_append2, auto)
    then have 2: "hd b' = LF"
      using b by simp
    have "trim (a @ l @ b) = a1 @ (if list_all is_space b then trim_end l else l) @ b' \<and>
        (a1 = [] \<or> last a1 = LF) \<and> (b' = [] \<or> hd b' = LF)"
      using 1 2 False a1 by simp
    then show ?thesis by (intro exI)
  qed
qed

text \<open>
  The normalizer keeps every line that starts with a hash: as it is when something other
  than whitespace follows the line, and without the whitespace at its end otherwise.
\<close>

lemma prettifyMarkdown_keeps_line:
  assumes u: "u = a @ l @ b" and l: "l \<noteq> []" "hd l = HASH" "LF \<notin> set l"
    and a: "a = [] \<or> last a = LF" and b: "b = [] \<or> hd b = LF"
  shows "(if list_all is_space b then trim_end l else l) \<in> set (lines_of (prettifyMarkdown u))"
proof -
  define l' where "l' = (if list_all is_space b then trim_end l else l)"
  have "u \<noteq> []"
    using u l(1) by simp
  then have p: "prettifyMarkdown u =
      replace_all title_rule True (replace_all bold_rule True (trim u))"
    by (simp add: prettifyMarkdown_def)
  from trim_keeps_line [OF l(1,2) a b]
  obtain a1 b1 where t: "trim (a @ l @ b) = a1 @ l' @ b1" "a1 = [] \<or> last a1 = LF"
    "b1 = [] \<or> hd b1 = LF"
    unfolding l'_def by blast
  have l': "l' \<noteq> []" "hd l' = HASH" "LF \<notin> set l'"
    using trim_end_hash [OF l(1,2)] l by (auto simp: l'_def)
  from replace_all_keeps_line [OF line_rule_bold l' t(3) t(2), of True]
  obtain a2 b2 where b: "replace_all bold_rule True (a1 @ l' @ b1) = a2 @ l' @ b2"
    "a2 = [] \<or> last a2 = LF" "b2 = [] \<or> hd b2 = LF"
    by blast
  from replace_all_keeps_line [OF line_rule_title l' b(3) b(2), of True]
  obtain a3 b3 where c: "replace_all title_rule True (a2 @ l' @ b2) = a3 @ l' @ b3"
    "a3 = [] \<or> last a3 = LF" "b3 = [] \<or> hd b3 = LF"
    by blast
  have "prettifyMarkdown u = a3 @ l' @ b3"
    using p u t(1) b(1) c(1) by simp
  then have "l' \<in> set (lines_of (prettifyMarkdown u))"
    using l'(3) c(2,3) by (rule line_member)
  then show ?thesis
    by (simp add: l'_def)
qed

lemma is_header_hash: "is_header l \<Longrightarrow> l \<noteq> [] \<and> hd l = HASH"
  by (cases l) (auto simp: is_header_def js_def)

text \<open>
  C9, as the code has it. Take a canonical header line of the normalized text: the
  normalized text is \<open>a @ l @ b\<close>, where \<open>l\<close> starts with the header marker and has no
  line feed, \<open>a\<close> is empty or ends in a line feed, and \<open>b\<close> is empty or starts with one.
  If anything other than whitespace follows the header (\<open>b\<close> is not all whitespace), then
  \<open>l\<close> itself, unchanged, is a line of the text normalized again. If only whitespace
  follows it, then \<open>l\<close> without the whitespace at its own end is a line of the text
  normalized again: the trim of the second run removes that whitespace. A header never
  matches a rule again, since both rules want a line that starts with \<open>**\<close> or with a
  capital letter.
\<close>

theorem renormalize_keeps_headers:
  assumes "prettifyMarkdown s = a @ l @ b" "is_header l" "LF \<notin> set l"
    "a = [] \<or> last a = LF" "b = [] \<or> hd b = LF"
  shows "(if list_all is_space b then trim_end l else l)
           \<in> set (lines_of (prettifyMarkdown (prettifyMarkdown s)))"
proof -
  have "l \<noteq> []" "hd l = HASH"
    using is_header_hash [OF assms(2)] by simp_all
  then show ?thesis
    using assms(1,3,4,5) by (intro prettifyMarkdown_keeps_line)
qed

text \<open>
  The theorem at two inputs. In the first, \<open>x\<close> follows the header \<open>"### abc "\<close>, which
  stays as it is, with the space at its end. In the second, only line feeds follow it, and
  it becomes \<open>"### abc"\<close>.
\<close>

theorem renormalize_keeps_headers_witness:
  "prettifyMarkdown (js ''**abc **:x'') = [] @ js ''### abc '' @ js ''\<newline>\<newline>x'' \<and>
   \<not> list_all is_space (js ''\<newline>\<newline>x'') \<and>
   js ''### abc '' \<in> set (lines_of (prettifyMarkdown (prettifyMarkdown (js ''**abc **:x'')))) \<and>
   prettifyMarkdown (js ''**abc **:'') = [] @ js ''### abc '' @ js ''\<newline>\<newline>'' \<and>
   list_all is_space (js ''\<newline>\<newline>'') \<and>
   trim_end (js ''### abc '') = js ''### abc'' \<and>
   js ''### abc'' \<in> set (lines_of (prettifyMarkdown (prettifyMarkdown (js ''**abc **:''))))"
proof -
  have h: "is_header (js ''### abc '')" "LF \<notin> set (js ''### abc '')"
    "([] :: jstring) = [] \<or> last [] = LF"
    by code_simp+
  have p1: "prettifyMarkdown (js ''**abc **:x'') = [] @ js ''### abc '' @ js ''\<newline>\<newline>x''"
    and b1: "js ''\<newline>\<newline>x'' = [] \<or> hd (js ''\<newline>\<newline>x'') = LF"
    and n1: "\<not> list_all is_space (js ''\<newline>\<newline>x'')"
    by code_simp+
  have p2: "prettifyMarkdown (js ''**abc **:'') = [] @ js ''### abc '' @ js ''\<newline>\<newline>''"
    and b2: "js ''\<newline>\<newline>'' = [] \<or> hd (js ''\<newline>\<newline>'') = LF"
    and n2: "list_all is_space (js ''\<newline>\<newline>'')"
    and e2: "trim_end (js ''### abc '') = js ''### abc''"
    by code_simp+
  have 1: "js ''### abc '' \<in> set (lines_of (prettifyMarkdown (prettifyMarkdown (js ''**abc **:x''))))"
    using renormalize_keeps_headers [OF p1 h(1,2,3) b1] n1 by simp
  have 2: "js ''### abc'' \<in> set (lines_of (prettifyMarkdown (prettifyMarkdown (js ''**abc **:''))))"
    using renormalize_keeps_headers [OF p2 h(1,2,3) b2] n2 e2 by simp
  show ?thesis
    using p1 n1 1 p2 n2 e2 2 by (intro conjI)
qed

text \<open>
  Against C9 as it is stated: the header line \<open>"### abc "\<close> of the normalized text ends in
  a space, which the second run trims.
\<close>

theorem renormalize_counterexample:
  "js ''### abc '' \<in> set (lines_of (prettifyMarkdown (js ''**abc **:''))) \<and>
   is_header (js ''### abc '') \<and>
   js ''### abc '' \<notin> set (lines_of (prettifyMarkdown (prettifyMarkdown (js ''**abc **:''))))"
  by code_simp

section \<open>The length of the normalized text\<close>


















end
